theory Spec2Isabelle
  imports Complex_Main "HOL-Library.Word" "HOL-Library.Sublist"
begin

section \<open>Bytes and the Python operations on them\<close>

text \<open>
  The streaming frame-recovery pipeline of \<^verbatim>\<open>video_capture.py\<close>
  (class \<^verbatim>\<open>KVSStreamConsumer\<close>) works on Python \<^verbatim>\<open>bytes\<close> objects.
  A byte is an 8-bit word and a buffer is a list of bytes.
\<close>

type_synonym byte = "8 word"
type_synonym bytes = "byte list"

text \<open>
  \<^verbatim>\<open>index_of sub xs\<close> is the lowest index at which \<^verbatim>\<open>sub\<close> occurs in \<^verbatim>\<open>xs\<close>;
  \<^verbatim>\<open>bytes_find buffer sub start\<close> is Python's \<^verbatim>\<open>buffer.find(sub, start)\<close> for a
  start that is not negative, with \<open>None\<close> for the result \<^verbatim>\<open>-1\<close>.
\<close>

fun index_of :: "'a list \<Rightarrow> 'a list \<Rightarrow> nat option" where
  "index_of sub [] = (if sub = [] then Some 0 else None)"
| "index_of sub (x # xs) =
     (if prefix sub (x # xs) then Some 0 else map_option Suc (index_of sub xs))"

definition bytes_find :: "bytes \<Rightarrow> bytes \<Rightarrow> nat \<Rightarrow> nat option" where
  "bytes_find buffer sub start =
     (if length buffer < start then None
      else map_option (\<lambda>i. start + i) (index_of sub (drop start buffer)))"

text \<open>The slice \<^verbatim>\<open>buffer[i:j]\<close> for indices that are not negative.\<close>

definition slice :: "bytes \<Rightarrow> nat \<Rightarrow> nat \<Rightarrow> bytes" where
  "slice buffer i j = take (j - i) (drop i buffer)"

section \<open>OpenCV, the session directory and the debug log\<close>

text \<open>
  The pipeline calls OpenCV and the local file system. OpenCV is an oracle: what each call
  answers is a parameter of the model, and every call may raise.
  \<^item> \<^verbatim>\<open>cv2.VideoCapture(path)\<close> raises, or gives a capture whose \<^verbatim>\<open>isOpened()\<close>
    is false, or an opened capture that answers the successive \<^verbatim>\<open>cap.read()\<close> calls
    with the listed outcomes and with \<^verbatim>\<open>(False, None)\<close> once the list is used up;
  \<^item> \<^verbatim>\<open>cv2.imwrite(path, frame)\<close> answers true (file written), false, or raises;
  \<^item> \<^verbatim>\<open>cv2.imread(path)\<close> answers an image, \<^verbatim>\<open>None\<close>, or raises.
  The file system is taken to be reliable: \<^verbatim>\<open>open\<close>, \<^verbatim>\<open>write\<close>, \<^verbatim>\<open>exists\<close> and
  \<^verbatim>\<open>unlink\<close> do what they say and do not raise. Asynchronous interrupts
  (\<^verbatim>\<open>KeyboardInterrupt\<close>) are outside the model.
\<close>

datatype image = Image nat

datatype read_outcome = Frame image | NoFrame | ReadRaises

datatype capture = OpenRaises | NotOpened | Opened "read_outcome list"

datatype imwrite_outcome = Written | NotWritten | ImwriteRaises

datatype imread_outcome = Decoded image | NotAnImage | ImreadRaises

text \<open>
  The scratch files \<^verbatim>\<open>temp_stream_{frame_offset}.{fmt}\<close> and
  \<^verbatim>\<open>temp_raw_{frame_index}.{container_ext}\<close> of the session directory.
\<close>

datatype scratch_file = TempStream int string | TempRaw int string

record cv2 =
  VideoCapture :: "scratch_file \<Rightarrow> bytes \<Rightarrow> capture"
  imwrite :: "int \<Rightarrow> image \<Rightarrow> imwrite_outcome"
  imread :: "bytes \<Rightarrow> imread_outcome"

text \<open>
  The lines the cascade writes to the debug log when it starts a strategy:
  \<^verbatim>\<open>Trying format {fmt} with temp file\<close>, \<^verbatim>\<open>Trying to extract embedded JPEG frames\<close>,
  \<^verbatim>\<open>Trying to extract raw video frames\<close>.
\<close>

datatype event = TryingFormat string | TryingEmbeddedJpeg | TryingRawVideo

datatype json = JInt int | JReal real | JStr string | JObj "(string \<times> json) list"

text \<open>
  The state outside the Python process. \<open>frames\<close> lists the sequence numbers \<^verbatim>\<open>NNNN\<close>
  of the files \<^verbatim>\<open>frame_NNNN_{timestamp}.jpg\<close> present in the session directory, oldest
  first (the timestamp comes from the wall clock and makes every name fresh, so writing
  a frame file appends an entry); \<open>scratch\<close> lists the scratch files present;
  \<open>summary\<close> is the document in \<^verbatim>\<open>live_consumption_summary.json\<close>, \<open>None\<close> when there
  is no such file or it holds no complete document.
\<close>

record world =
  frames :: "int list"
  scratch :: "scratch_file list"
  summary :: "(string \<times> json) list option"
  debug_log :: "event list"
  payload_closed :: bool

definition write_scratch :: "scratch_file \<Rightarrow> world \<Rightarrow> world" where
  "write_scratch f w = w\<lparr>scratch := List.insert f (scratch w)\<rparr>"

text \<open>
  The clean-up of a scratch file in a \<^verbatim>\<open>finally\<close> block:
  \<^verbatim>\<open>if temp.exists(): temp.unlink()\<close>.
\<close>

definition cleanup_scratch :: "scratch_file \<Rightarrow> world \<Rightarrow> world" where
  "cleanup_scratch f w =
     (if f \<in> set (scratch w) then w\<lparr>scratch := removeAll f (scratch w)\<rparr> else w)"

definition write_frame_file :: "int \<Rightarrow> world \<Rightarrow> world" where
  "write_frame_file n w = w\<lparr>frames := frames w @ [n]\<rparr>"

text \<open>\<^verbatim>\<open>frame_path.unlink()\<close> for the frame file written last.\<close>

definition unlink_last_frame :: "world \<Rightarrow> world" where
  "unlink_last_frame w = w\<lparr>frames := butlast (frames w)\<rparr>"

section \<open>The embedded-image scanner\<close>

definition jpeg_start :: bytes where
  "jpeg_start = [0xFF, 0xD8]"

definition jpeg_end :: bytes where
  "jpeg_end = [0xFF, 0xD9]"

text \<open>
  The inner \<^verbatim>\<open>try\<close> of \<^verbatim>\<open>_extract_jpeg_from_buffer\<close>: the candidate is written to
  the frame file numbered \<open>n\<close> and read back with \<^verbatim>\<open>cv2.imread\<close>. A decoded image
  is counted; \<^verbatim>\<open>None\<close> removes the file; an exception is caught and the file is
  removed if it exists (it does: it has just been written).
\<close>

definition save_jpeg :: "cv2 \<Rightarrow> bytes \<Rightarrow> int \<Rightarrow> int \<Rightarrow> world \<Rightarrow> int \<times> world" where
  "save_jpeg cv jpeg_data n extracted_count w =
     (let w1 = write_frame_file n w in
      case imread cv jpeg_data of
        Decoded test_img \<Rightarrow> (extracted_count + 1, w1)
      | NotAnImage \<Rightarrow> (extracted_count, unlink_last_frame w1)
      | ImreadRaises \<Rightarrow> (extracted_count, unlink_last_frame w1))"

text \<open>
  The \<^verbatim>\<open>while pos < len(buffer) - 1000 and extracted_count < 5\<close> loop. The result
  holds the final values of \<^verbatim>\<open>pos\<close> and \<^verbatim>\<open>extracted_count\<close>.
\<close>

function jpeg_loop ::
  "cv2 \<Rightarrow> bytes \<Rightarrow> int \<Rightarrow> nat \<Rightarrow> int \<Rightarrow> world \<Rightarrow> nat \<times> int \<times> world" where
  "jpeg_loop cv buffer frame_offset pos extracted_count w =
     (if int pos < int (length buffer) - 1000 \<and> extracted_count < 5 then
        (case bytes_find buffer jpeg_start pos of
           None \<Rightarrow> (pos, extracted_count, w)
         | Some start_pos \<Rightarrow>
             (case bytes_find buffer jpeg_end (start_pos + 2) of
                None \<Rightarrow> jpeg_loop cv buffer frame_offset (start_pos + 2) extracted_count w
              | Some end_pos \<Rightarrow>
                  (case save_jpeg cv (slice buffer start_pos (end_pos + 2))
                          (frame_offset + extracted_count + 1) extracted_count w of
                     (extracted_count', w') \<Rightarrow>
                       jpeg_loop cv buffer frame_offset (end_pos + 2) extracted_count' w')))
      else (pos, extracted_count, w))"
  by pat_completeness auto
termination
proof (relation "measure (\<lambda>(cv, buffer, frame_offset, pos, extracted_count, w). length buffer - pos)")
  have find_ge: "\<And>b sub p i. bytes_find b sub p = Some i \<Longrightarrow> p \<le> i"
    by (auto simp: bytes_find_def split: if_splits)
  show "wf (measure (\<lambda>(cv, buffer, frame_offset, pos, extracted_count, w). length buffer - pos))"
    by simp
  show "\<And>cv buffer frame_offset pos extracted_count w x2.
       int pos < int (length buffer) - 1000 \<and> extracted_count < 5 \<Longrightarrow>
       bytes_find buffer jpeg_start pos = Some x2 \<Longrightarrow>
       bytes_find buffer jpeg_end (x2 + 2) = None \<Longrightarrow>
       ((cv, buffer, frame_offset, x2 + 2, extracted_count, w),
        cv, buffer, frame_offset, pos, extracted_count, w)
       \<in> measure (\<lambda>(cv, buffer, frame_offset, pos, extracted_count, w). length buffer - pos)"
    using find_ge by fastforce
  show "\<And>cv buffer frame_offset pos extracted_count w x2 x2a x y.
       int pos < int (length buffer) - 1000 \<and> extracted_count < 5 \<Longrightarrow>
       bytes_find buffer jpeg_start pos = Some x2 \<Longrightarrow>
       bytes_find buffer jpeg_end (x2 + 2) = Some x2a \<Longrightarrow>
       (x, y) = save_jpeg cv (slice buffer x2 (x2a + 2))
                  (frame_offset + extracted_count + 1) extracted_count w \<Longrightarrow>
       ((cv, buffer, frame_offset, x2a + 2, x, y),
        cv, buffer, frame_offset, pos, extracted_count, w)
       \<in> measure (\<lambda>(cv, buffer, frame_offset, pos, extracted_count, w). length buffer - pos)"
  proof -
    fix cv :: cv2 and buffer :: bytes and frame_offset :: int and pos :: nat
      and extracted_count :: int and w :: world and x2 x2a :: nat and x :: int and y :: world
    assume a: "int pos < int (length buffer) - 1000 \<and> extracted_count < 5"
      and s: "bytes_find buffer jpeg_start pos = Some x2"
      and e: "bytes_find buffer jpeg_end (x2 + 2) = Some x2a"
    from find_ge [OF s] find_ge [OF e] have "pos < x2a + 2" by simp
    with a have "length buffer - (x2a + 2) < length buffer - pos" by linarith
    then show "((cv, buffer, frame_offset, x2a + 2, x, y),
        cv, buffer, frame_offset, pos, extracted_count, w)
       \<in> measure (\<lambda>(cv, buffer, frame_offset, pos, extracted_count, w). length buffer - pos)"
      by simp
  qed
qed

declare jpeg_loop.simps [simp del]

text \<open>
  \<^verbatim>\<open>_extract_jpeg_from_buffer\<close>. Its outer \<^verbatim>\<open>except Exception: return 0\<close> has no
  branch here: the only call of the loop that raises in this model, \<^verbatim>\<open>cv2.imread\<close>,
  is inside the inner \<^verbatim>\<open>try\<close>.
\<close>

definition extract_jpeg_from_buffer :: "cv2 \<Rightarrow> bytes \<Rightarrow> int \<Rightarrow> world \<Rightarrow> int \<times> world" where
  "extract_jpeg_from_buffer cv buffer frame_offset w =
     snd (jpeg_loop cv buffer frame_offset 0 0 w)"

section \<open>The container trial decoder\<close>

text \<open>
  The loop \<^verbatim>\<open>while frame_count < max_frames\<close> over the reads of an opened capture.
  The first component of the result tells whether \<^verbatim>\<open>cap.read()\<close> or
  \<^verbatim>\<open>cv2.imwrite\<close> raised; \<^verbatim>\<open>extracted_count\<close> keeps the value it had then.
  A frame that \<^verbatim>\<open>imwrite\<close> does not save is not counted and the loop reads on.
\<close>

fun read_frames ::
  "cv2 \<Rightarrow> int \<Rightarrow> int \<Rightarrow> read_outcome list \<Rightarrow> int \<Rightarrow> int \<Rightarrow> world \<Rightarrow> bool \<times> int \<times> world" where
  "read_frames cv frame_offset max_frames [] frame_count extracted_count w =
     (False, extracted_count, w)"
| "read_frames cv frame_offset max_frames (r # reads) frame_count extracted_count w =
     (if frame_count < max_frames then
        (case r of
           NoFrame \<Rightarrow> (False, extracted_count, w)
         | ReadRaises \<Rightarrow> (True, extracted_count, w)
         | Frame frame \<Rightarrow>
             (case imwrite cv (frame_offset + extracted_count + 1) frame of
                Written \<Rightarrow>
                  read_frames cv frame_offset max_frames reads (frame_count + 1)
                    (extracted_count + 1)
                    (write_frame_file (frame_offset + extracted_count + 1) w)
              | NotWritten \<Rightarrow>
                  read_frames cv frame_offset max_frames reads frame_count extracted_count w
              | ImwriteRaises \<Rightarrow> (True, extracted_count, w)))
      else (False, extracted_count, w))"

text \<open>
  One candidate extension: the body of the \<^verbatim>\<open>for fmt, header in video_formats\<close> loop
  after its first test, with the \<^verbatim>\<open>finally\<close> clean-up. The buffer is written to the
  scratch file as it is (every header of \<^verbatim>\<open>video_formats\<close> is empty). The frame
  limit of the candidate is \<^verbatim>\<open>min(5, 10 - frame_offset)\<close>.
\<close>

definition try_format ::
  "cv2 \<Rightarrow> bytes \<Rightarrow> int \<Rightarrow> string \<Rightarrow> int \<Rightarrow> world \<Rightarrow> bool \<times> int \<times> world" where
  "try_format cv stream_buffer frame_offset fmt extracted_count w =
     (let temp_video_file = TempStream frame_offset fmt;
          w1 = write_scratch temp_video_file
                 (w\<lparr>debug_log := debug_log w @ [TryingFormat fmt]\<rparr>)
      in case (case VideoCapture cv temp_video_file stream_buffer of
                 OpenRaises \<Rightarrow> (True, extracted_count, w1)
               | NotOpened \<Rightarrow> (False, extracted_count, w1)
               | Opened reads \<Rightarrow>
                   read_frames cv frame_offset (min 5 (10 - frame_offset)) reads 0
                     extracted_count w1) of
           (raised, extracted_count', w2) \<Rightarrow>
             (raised, extracted_count', cleanup_scratch temp_video_file w2))"

definition video_formats :: "string list" where
  "video_formats = [''webm'', ''mkv'', ''mp4'']"

text \<open>
  The \<^verbatim>\<open>for\<close> loop: it stops at its head once a frame has been extracted, an exception
  of a candidate is caught and the loop continues, and a candidate that extracted a
  frame ends the loop.
\<close>

fun try_formats ::
  "cv2 \<Rightarrow> bytes \<Rightarrow> int \<Rightarrow> string list \<Rightarrow> int \<Rightarrow> world \<Rightarrow> int \<times> world" where
  "try_formats cv stream_buffer frame_offset [] extracted_count w = (extracted_count, w)"
| "try_formats cv stream_buffer frame_offset (fmt # fmts) extracted_count w =
     (if 0 < extracted_count then (extracted_count, w)
      else
        (case try_format cv stream_buffer frame_offset fmt extracted_count w of
           (raised, extracted_count', w') \<Rightarrow>
             if raised then try_formats cv stream_buffer frame_offset fmts extracted_count' w'
             else if 0 < extracted_count' then (extracted_count', w')
             else try_formats cv stream_buffer frame_offset fmts extracted_count' w'))"

section \<open>The raw codec-unit scanner\<close>

datatype frame_type = H264 | VP

definition h264_start_codes :: "bytes list" where
  "h264_start_codes = [[0x00, 0x00, 0x00, 0x01], [0x00, 0x00, 0x01]]"

definition vp_signatures :: "bytes list" where
  "vp_signatures = [[0x9d, 0x01, 0x2a], [0x82]]"

definition all_signatures :: "bytes list" where
  "all_signatures = h264_start_codes @ vp_signatures"

text \<open>
  The \<^verbatim>\<open>for sig in all_signatures\<close> loop: the earliest match at or after \<^verbatim>\<open>pos\<close>,
  the first signature winning a tie.
\<close>

fun next_frame ::
  "bytes \<Rightarrow> nat \<Rightarrow> bytes list \<Rightarrow> (nat \<times> frame_type) option \<Rightarrow> (nat \<times> frame_type) option" where
  "next_frame buffer pos [] best = best"
| "next_frame buffer pos (sig # sigs) best =
     next_frame buffer pos sigs
       (case bytes_find buffer sig pos of
          None \<Rightarrow> best
        | Some sig_pos \<Rightarrow>
            (case best of
               None \<Rightarrow> Some (sig_pos, if sig \<in> set h264_start_codes then H264 else VP)
             | Some (next_frame_pos, ftype) \<Rightarrow>
                 if sig_pos < next_frame_pos
                 then Some (sig_pos, if sig \<in> set h264_start_codes then H264 else VP)
                 else best))"

text \<open>
  \<^verbatim>\<open>_try_decode_raw_frame\<close>: the candidate is written behind a container header to a
  scratch file, one frame is read and saved as frame \<^verbatim>\<open>frame_index + 1\<close>. Every
  exception gives \<^verbatim>\<open>False\<close>; the scratch file is removed in the \<^verbatim>\<open>finally\<close> block. A
  capture that is not opened reads \<^verbatim>\<open>(False, None)\<close>.
\<close>

definition try_decode_raw_frame ::
  "cv2 \<Rightarrow> bytes \<Rightarrow> int \<Rightarrow> frame_type \<Rightarrow> world \<Rightarrow> bool \<times> world" where
  "try_decode_raw_frame cv frame_data frame_index ftype w =
     (let container_ext = (if ftype = H264 then ''mp4'' else ''webm'');
          header = (if ftype = H264 then [] else [0x1a, 0x45, 0xdf, 0xa3]);
          temp_file = TempRaw frame_index container_ext;
          w1 = write_scratch temp_file w
      in case (case VideoCapture cv temp_file (header @ frame_data) of
                 OpenRaises \<Rightarrow> (False, w1)
               | NotOpened \<Rightarrow> (False, w1)
               | Opened reads \<Rightarrow>
                   (case reads of
                      [] \<Rightarrow> (False, w1)
                    | r # _ \<Rightarrow>
                        (case r of
                           NoFrame \<Rightarrow> (False, w1)
                         | ReadRaises \<Rightarrow> (False, w1)
                         | Frame frame \<Rightarrow>
                             (case imwrite cv (frame_index + 1) frame of
                                Written \<Rightarrow> (True, write_frame_file (frame_index + 1) w1)
                              | NotWritten \<Rightarrow> (False, w1)
                              | ImwriteRaises \<Rightarrow> (False, w1))))) of
           (success, w2) \<Rightarrow> (success, cleanup_scratch temp_file w2))"

text \<open>
  One pass through the body of the loop
  \<^verbatim>\<open>while pos < len(buffer) - 10000 and extracted_count < 3\<close>: \<open>None\<close> when no
  signature is found (\<^verbatim>\<open>break\<close>), otherwise the new values of \<^verbatim>\<open>pos\<close> and
  \<^verbatim>\<open>extracted_count\<close>.
\<close>

definition raw_iteration ::
  "cv2 \<Rightarrow> bytes \<Rightarrow> int \<Rightarrow> nat \<Rightarrow> int \<Rightarrow> world \<Rightarrow> (nat \<times> int \<times> world) option" where
  "raw_iteration cv buffer frame_offset pos extracted_count w =
     (case next_frame buffer pos all_signatures None of
        None \<Rightarrow> None
      | Some (next_frame_pos, ftype) \<Rightarrow>
          (let frame_end = min (next_frame_pos + 51200) (length buffer);
               frame_data = slice buffer next_frame_pos frame_end
           in case try_decode_raw_frame cv frame_data (frame_offset + extracted_count) ftype w of
                (success, w') \<Rightarrow>
                  Some (next_frame_pos + 1000,
                        if success then extracted_count + 1 else extracted_count, w')))"

function raw_loop ::
  "cv2 \<Rightarrow> bytes \<Rightarrow> int \<Rightarrow> nat \<Rightarrow> int \<Rightarrow> world \<Rightarrow> nat \<times> int \<times> world" where
  "raw_loop cv buffer frame_offset pos extracted_count w =
     (if int pos < int (length buffer) - 10000 \<and> extracted_count < 3 then
        (case raw_iteration cv buffer frame_offset pos extracted_count w of
           None \<Rightarrow> (pos, extracted_count, w)
         | Some (pos', extracted_count', w') \<Rightarrow>
             raw_loop cv buffer frame_offset pos' extracted_count' w')
      else (pos, extracted_count, w))"
  by pat_completeness auto
termination
proof (relation "measure (\<lambda>(cv, buffer, frame_offset, pos, extracted_count, w). length buffer - pos)")
  have find_ge: "\<And>b sub p i. bytes_find b sub p = Some i \<Longrightarrow> p \<le> i"
    by (auto simp: bytes_find_def split: if_splits)
  have next_ge: "\<And>b p sigs best q t.
       next_frame b p sigs best = Some (q, t) \<Longrightarrow>
       (\<And>q' t'. best = Some (q', t') \<Longrightarrow> p \<le> q') \<Longrightarrow> p \<le> q"
  proof -
    fix b p sigs and best :: "(nat \<times> frame_type) option" and q t
    show "next_frame b p sigs best = Some (q, t) \<Longrightarrow>
       (\<And>q' t'. best = Some (q', t') \<Longrightarrow> p \<le> q') \<Longrightarrow> p \<le> q"
    proof (induction sigs arbitrary: best)
      case Nil
      then show ?case by simp
    next
      case (Cons sig sigs)
      show ?case
      proof (rule Cons.IH [OF Cons.prems(1) [simplified]])
        fix q' t'
        assume "(case bytes_find b sig p of
                   None \<Rightarrow> best
                 | Some sig_pos \<Rightarrow>
                     (case best of
                        None \<Rightarrow> Some (sig_pos, if sig \<in> set h264_start_codes then H264 else VP)
                      | Some (next_frame_pos, ftype) \<Rightarrow>
                          if sig_pos < next_frame_pos
                          then Some (sig_pos, if sig \<in> set h264_start_codes then H264 else VP)
                          else best)) = Some (q', t')"
        then show "p \<le> q'"
          using Cons.prems(2) find_ge [of b sig p]
          by (auto split: option.splits if_splits)
      qed
    qed
  qed
  show "wf (measure (\<lambda>(cv, buffer, frame_offset, pos, extracted_count, w). length buffer - pos))"
    by simp
  show "\<And>cv buffer frame_offset pos extracted_count w x2 x y xa ya.
       int pos < int (length buffer) - 10000 \<and> extracted_count < 3 \<Longrightarrow>
       raw_iteration cv buffer frame_offset pos extracted_count w = Some x2 \<Longrightarrow>
       (x, y) = x2 \<Longrightarrow>
       (xa, ya) = y \<Longrightarrow>
       ((cv, buffer, frame_offset, x, xa, ya), cv, buffer, frame_offset, pos, extracted_count, w)
       \<in> measure (\<lambda>(cv, buffer, frame_offset, pos, extracted_count, w). length buffer - pos)"
  proof -
    fix cv :: cv2 and buffer :: bytes and frame_offset :: int and pos :: nat
      and extracted_count :: int and w :: world and x2 :: "nat \<times> int \<times> world"
      and x :: nat and y :: "int \<times> world" and xa :: int and ya :: world
    assume a: "int pos < int (length buffer) - 10000 \<and> extracted_count < 3"
      and it: "raw_iteration cv buffer frame_offset pos extracted_count w = Some x2"
      and x: "(x, y) = x2"
    from it x obtain q t where
      nf: "next_frame buffer pos all_signatures None = Some (q, t)" and xq: "x = q + 1000"
      by (auto simp: raw_iteration_def Let_def split: option.splits prod.splits)
    from next_ge [OF nf] have "pos \<le> q" by simp
    with xq a have "length buffer - x < length buffer - pos" by linarith
    then show "((cv, buffer, frame_offset, x, xa, ya),
        cv, buffer, frame_offset, pos, extracted_count, w)
       \<in> measure (\<lambda>(cv, buffer, frame_offset, pos, extracted_count, w). length buffer - pos)"
      by simp
  qed
qed

declare raw_loop.simps [simp del]

text \<open>
  \<^verbatim>\<open>_extract_raw_video_frames\<close>; as in the embedded-image scanner, nothing outside
  \<^verbatim>\<open>_try_decode_raw_frame\<close> raises.
\<close>

definition extract_raw_video_frames :: "cv2 \<Rightarrow> bytes \<Rightarrow> int \<Rightarrow> world \<Rightarrow> int \<times> world" where
  "extract_raw_video_frames cv buffer frame_offset w =
     snd (raw_loop cv buffer frame_offset 0 0 w)"

section \<open>The extraction cascade\<close>

text \<open>A Python call returns a value or raises an exception.\<close>

datatype 'a outcome = Returns 'a | Raises

text \<open>
  \<^verbatim>\<open>_extract_frames_from_stream_buffer\<close>: the container trial decoder first, the
  embedded-image scanner if no frame was extracted, the raw codec-unit scanner if still
  none.
\<close>

definition extract_frames_from_stream_buffer ::
  "cv2 \<Rightarrow> bytes \<Rightarrow> int \<Rightarrow> world \<Rightarrow> int outcome \<times> world" where
  "extract_frames_from_stream_buffer cv stream_buffer frame_offset w =
     (case try_formats cv stream_buffer frame_offset video_formats 0 w of
        (c1, w1) \<Rightarrow>
          (case (if c1 = 0 then
                   (case extract_jpeg_from_buffer cv stream_buffer frame_offset
                           (w1\<lparr>debug_log := debug_log w1 @ [TryingEmbeddedJpeg]\<rparr>) of
                      (jpeg_frames, w') \<Rightarrow> (c1 + jpeg_frames, w'))
                 else (c1, w1)) of
             (c2, w2) \<Rightarrow>
               (case (if c2 = 0 then
                        (case extract_raw_video_frames cv stream_buffer frame_offset
                                (w2\<lparr>debug_log := debug_log w2 @ [TryingRawVideo]\<rparr>) of
                           (raw_frames, w') \<Rightarrow> (c2 + raw_frames, w'))
                      else (c2, w2)) of
                  (extracted_count, w3) \<Rightarrow> (Returns extracted_count, w3))))"

section \<open>The buffer trim\<close>

text \<open>
  In \<^verbatim>\<open>_process_live_stream_data\<close>, after the extraction attempt of a checkpoint:
  \<^verbatim>\<open>if len(stream_buffer) > 500000: stream_buffer = stream_buffer[-300000:]\<close>.
  The slice \<^verbatim>\<open>b[-300000:]\<close> of a buffer of more than 300000 bytes is its last
  300000 bytes.
\<close>

definition trim_buffer :: "bytes \<Rightarrow> bytes" where
  "trim_buffer stream_buffer =
     (if 500000 < length stream_buffer
      then drop (length stream_buffer - 300000) stream_buffer
      else stream_buffer)"

section \<open>The stream buffer controller\<close>

text \<open>
  \<^verbatim>\<open>stream_config\<close> is the caller's dictionary: the two entries the pipeline reads and
  whatever else the caller has put into it. A value of another entry is one that
  \<^verbatim>\<open>json.dump\<close> can write, or some other object, on which \<^verbatim>\<open>json.dump\<close> raises a
  \<^verbatim>\<open>TypeError\<close>.
\<close>

datatype pyobject = Serializable json | Unserializable

record stream_config =
  max_frames :: int
  frame_extract_fps :: int
  other_entries :: "(string \<times> pyobject) list"

text \<open>What \<^verbatim>\<open>json.dump\<close> writes for a list of entries; \<open>None\<close> when it raises.\<close>

fun dump_entries :: "(string \<times> pyobject) list \<Rightarrow> (string \<times> json) list option" where
  "dump_entries [] = Some []"
| "dump_entries ((k, Serializable v) # entries) = map_option ((#) (k, v)) (dump_entries entries)"
| "dump_entries ((k, Unserializable) # entries) = None"

definition dump_config :: "stream_config \<Rightarrow> json option" where
  "dump_config cfg =
     map_option
       (\<lambda>rest. JObj ([(''max_frames'', JInt (max_frames cfg)),
                      (''frame_extract_fps'', JInt (frame_extract_fps cfg))] @ rest))
       (dump_entries (other_entries cfg))"

text \<open>
  What \<^verbatim>\<open>stream_payload.read(65536)\<close> answers: bytes (none at the end of the stream),
  or an exception.
\<close>

datatype read_result = Chunk bytes | ReadFails

text \<open>
  The stream payload and the wall clock are given as the list of the passes through the
  reading loop: the value of \<^verbatim>\<open>time.time()\<close> at the head of the pass, and the answer of
  the read of that pass. A stream whose list is used up answers the next read with no
  bytes. Every session that ends has read finitely often, so it is one of these lists.
  Times are real numbers; a run of the source, which subtracts floating-point seconds,
  is the run of the model at start 0 whose times are the differences the source
  computed.
\<close>

type_synonym tick = "real \<times> read_result"

record clock =
  process_start_time :: real
  summary_time :: real
  completed_at :: string

record session =
  saved_count :: int
  total_bytes_read :: int
  chunk_count :: int
  stream_buffer :: bytes
  frames_extracted :: int

definition initial_session :: session where
  "initial_session =
     \<lparr>saved_count = 0, total_bytes_read = 0, chunk_count = 0, stream_buffer = [],
      frames_extracted = 0\<rparr>"

text \<open>\<^verbatim>\<open>if new_frames > 0: frames_extracted += new_frames; saved_count += new_frames\<close>\<close>

definition add_frames :: "int \<Rightarrow> session \<Rightarrow> session" where
  "add_frames new_frames s =
     (if 0 < new_frames
      then s\<lparr>frames_extracted := frames_extracted s + new_frames,
             saved_count := saved_count s + new_frames\<rparr>
      else s)"

text \<open>The trim of the buffer that ends a checkpoint.\<close>

definition trim_session :: "session \<Rightarrow> session" where
  "trim_session s = s\<lparr>stream_buffer := trim_buffer (stream_buffer s)\<rparr>"

text \<open>
  The loop \<^verbatim>\<open>while frames_extracted < stream_config['max_frames']\<close> of
  \<^verbatim>\<open>_process_live_stream_data\<close>. It ends on the 60 second timeout, on a read that
  gives no bytes, and on any exception of the read or of the processing of the chunk.
  A checkpoint is every third chunk once the buffer holds more than 200000 bytes.
\<close>

fun read_loop ::
  "cv2 \<Rightarrow> stream_config \<Rightarrow> real \<Rightarrow> tick list \<Rightarrow> session \<Rightarrow> world \<Rightarrow> session \<times> world" where
  "read_loop cv cfg start [] s w = (s, w)"
| "read_loop cv cfg start ((current_time, r) # ticks) s w =
     (if frames_extracted s < max_frames cfg then
        (if 60 < current_time - start then (s, w)
         else
           (case r of
              ReadFails \<Rightarrow> (s, w)
            | Chunk chunk \<Rightarrow>
                (if chunk = [] then (s, w)
                 else
                   (let s1 = s\<lparr>total_bytes_read := total_bytes_read s + int (length chunk),
                                chunk_count := chunk_count s + 1,
                                stream_buffer := stream_buffer s @ chunk\<rparr>
                    in if chunk_count s1 mod 3 = 0 \<and> 200000 < length (stream_buffer s1) then
                         (case extract_frames_from_stream_buffer cv (stream_buffer s1)
                                 (frames_extracted s1) w of
                            (Raises, w') \<Rightarrow> (s1, w')
                          | (Returns new_frames, w') \<Rightarrow>
                              read_loop cv cfg start ticks
                                (trim_session (add_frames new_frames s1)) w')
                       else read_loop cv cfg start ticks s1 w))))
      else (s, w))"

text \<open>
  The dictionary \<^verbatim>\<open>live_summary\<close> of \<^verbatim>\<open>_save_live_summary\<close> as \<^verbatim>\<open>json.dump\<close> writes it;
  \<open>config\<close> is what is written for the entry \<^verbatim>\<open>'config': stream_config\<close>.
\<close>

definition live_summary ::
  "string \<Rightarrow> clock \<Rightarrow> int \<Rightarrow> string \<Rightarrow> stream_config \<Rightarrow> int \<Rightarrow> int \<Rightarrow> json \<Rightarrow>
   (string \<times> json) list" where
  "live_summary stream_name clk saved session_dir cfg bytes_read chunks config =
     [(''frames_extracted'', JInt saved),
      (''total_chunks_processed'', JInt chunks),
      (''processing_duration_seconds'', JReal (summary_time clk - process_start_time clk)),
      (''total_bytes_read'', JInt bytes_read),
      (''target_fps'', JInt (frame_extract_fps cfg)),
      (''max_frames_limit'', JInt (max_frames cfg)),
      (''kvs_stream'', JStr stream_name),
      (''consumption_method'', JStr ''Live_Stream_Frame_Extraction''),
      (''config'', config),
      (''session_dir'', JStr session_dir),
      (''completed_at'', JStr (completed_at clk))]"

text \<open>
  \<^verbatim>\<open>_save_live_summary\<close>: the summary file is opened for writing and the dictionary is
  dumped into it. When an entry of the configuration cannot be written, \<^verbatim>\<open>json.dump\<close>
  raises; the file then holds no complete document. No handler is around the dump.
\<close>

definition save_live_summary ::
  "string \<Rightarrow> clock \<Rightarrow> int \<Rightarrow> string \<Rightarrow> stream_config \<Rightarrow> int \<Rightarrow> int \<Rightarrow> world \<Rightarrow>
   unit outcome \<times> world" where
  "save_live_summary stream_name clk saved session_dir cfg bytes_read chunks w =
     (case dump_config cfg of
        None \<Rightarrow> (Raises, w\<lparr>summary := None\<rparr>)
      | Some config \<Rightarrow>
          (Returns (),
           w\<lparr>summary := Some (live_summary stream_name clk saved session_dir cfg bytes_read
                                 chunks config)\<rparr>))"

text \<open>
  The final extraction attempt after the loop, inside the outer \<^verbatim>\<open>try\<close>, whose handler
  logs an exception and goes on.
\<close>

definition final_extraction ::
  "cv2 \<Rightarrow> stream_config \<Rightarrow> session \<Rightarrow> world \<Rightarrow> session \<times> world" where
  "final_extraction cv cfg s w =
     (if 50000 < length (stream_buffer s) \<and> frames_extracted s < max_frames cfg then
        (case extract_frames_from_stream_buffer cv (stream_buffer s) (frames_extracted s) w of
           (Returns final_frames, w') \<Rightarrow> (add_frames final_frames s, w')
         | (Raises, w') \<Rightarrow> (s, w'))
      else (s, w))"

text \<open>
  The session after the reading loop and the final attempt: the values of the local
  variables and the world, before the payload is closed and the summary written.
\<close>

definition run_session ::
  "cv2 \<Rightarrow> clock \<Rightarrow> tick list \<Rightarrow> stream_config \<Rightarrow> world \<Rightarrow> session \<times> world" where
  "run_session cv clk stream_payload cfg w =
     (case read_loop cv cfg (process_start_time clk) stream_payload initial_session w of
        (s, w1) \<Rightarrow> final_extraction cv cfg s w1)"

text \<open>
  \<^verbatim>\<open>_process_live_stream_data\<close>: the payload is closed, the summary is saved outside
  every \<^verbatim>\<open>try\<close>, so that an exception of the dump leaves the function, and the result is
  \<^verbatim>\<open>saved_count > 0\<close>.
\<close>

definition process_live_stream_data ::
  "cv2 \<Rightarrow> string \<Rightarrow> clock \<Rightarrow> tick list \<Rightarrow> string \<Rightarrow> stream_config \<Rightarrow> world \<Rightarrow>
   bool outcome \<times> world" where
  "process_live_stream_data cv stream_name clk stream_payload session_dir cfg w =
     (case run_session cv clk stream_payload cfg w of
        (s, w2) \<Rightarrow>
          (case save_live_summary stream_name clk (saved_count s) session_dir cfg
                  (total_bytes_read s) (chunk_count s) (w2\<lparr>payload_closed := True\<rparr>) of
             (Raises, w3) \<Rightarrow> (Raises, w3)
           | (Returns u, w3) \<Rightarrow> (Returns (0 < saved_count s), w3)))"



text \<open>The session directory as \<^verbatim>\<open>setup_data_directories\<close> creates it.\<close>

definition fresh_world :: world where
  "fresh_world =
     \<lparr>frames = [], scratch = [], summary = None, debug_log = [], payload_closed = False\<rparr>"

section \<open>Example inputs\<close>

text \<open>
  Buffers: 60000 zero bytes; one and five minimal marker pairs (a start-of-image marker
  directly followed by an end-of-image marker) in front of them; a four-byte H.264 start
  code in front of them. Each is shorter than the 65536 bytes of one read.
\<close>

definition padding :: bytes where
  "padding = replicate 60000 0"

definition one_jpeg_buffer :: bytes where
  "one_jpeg_buffer = [0xFF, 0xD8, 0xFF, 0xD9] @ padding"

definition five_jpegs_buffer :: bytes where
  "five_jpegs_buffer =
     [0xFF, 0xD8, 0xFF, 0xD9, 0xFF, 0xD8, 0xFF, 0xD9, 0xFF, 0xD8, 0xFF, 0xD9,
      0xFF, 0xD8, 0xFF, 0xD9, 0xFF, 0xD8, 0xFF, 0xD9] @ padding"

definition nal_buffer :: bytes where
  "nal_buffer = [0x00, 0x00, 0x00, 0x01] @ padding"

text \<open>
  OpenCV answers. \<open>cv_still\<close>: no file opens as a video, and the four bytes of a marker
  pair read back as an image. \<open>cv_closed\<close>: nothing opens and nothing is an image.
  \<open>cv_video\<close>: every file opens as a video of six frames and every frame is saved.
  \<open>cv_faulty\<close>: every file opens as a video of two frames; saving the first succeeds,
  saving the second raises.
\<close>

definition cv_still :: cv2 where
  "cv_still =
     \<lparr>VideoCapture = (\<lambda>f d. NotOpened),
      imwrite = (\<lambda>n img. Written),
      imread = (\<lambda>d. if d = [0xFF, 0xD8, 0xFF, 0xD9] then Decoded (Image 0) else NotAnImage)\<rparr>"

definition cv_closed :: cv2 where
  "cv_closed =
     \<lparr>VideoCapture = (\<lambda>f d. NotOpened),
      imwrite = (\<lambda>n img. Written),
      imread = (\<lambda>d. NotAnImage)\<rparr>"

definition cv_video :: cv2 where
  "cv_video =
     \<lparr>VideoCapture = (\<lambda>f d. Opened [Frame (Image 0), Frame (Image 1), Frame (Image 2),
                                     Frame (Image 3), Frame (Image 4), Frame (Image 5)]),
      imwrite = (\<lambda>n img. Written),
      imread = (\<lambda>d. NotAnImage)\<rparr>"

definition cv_faulty :: cv2 where
  "cv_faulty =
     \<lparr>VideoCapture = (\<lambda>f d. Opened [Frame (Image 0), Frame (Image 1)]),
      imwrite = (\<lambda>n img. if img = Image 0 then Written else ImwriteRaises),
      imread = (\<lambda>d. NotAnImage)\<rparr>"

definition example_clock :: clock where
  "example_clock =
     \<lparr>process_start_time = 0, summary_time = 1, completed_at = ''2025-01-01T00:00:01''\<rparr>"

section \<open>The frame files a strategy leaves behind\<close>

text \<open>
  Every strategy called with \<^verbatim>\<open>frame_offset\<close> that reports \<open>n\<close> frames has added the frame
  files numbered \<open>frame_offset + 1\<close> to \<open>frame_offset + n\<close>, in this order, and nothing else.
\<close>

lemma upto_cons: "c < c' \<Longrightarrow> (a + c + 1) # [a + (c + 1) + 1..a + c'] = [a + c + 1..a + c']"
  using upto_rec1 [of "a + c + 1" "a + c'"] by (simp add: add.assoc)

lemma save_jpeg_cases:
  "save_jpeg cv d n c w = (c', w') \<Longrightarrow>
     (c' = c + 1 \<and> w' = write_frame_file n w) \<or> (c' = c \<and> w' = w)"
  by (auto simp: save_jpeg_def Let_def write_frame_file_def unlink_last_frame_def
      split: imread_outcome.splits)

lemma jpeg_loop_inv:
  "jpeg_loop cv b off pos c w = (pos', c', w') \<Longrightarrow> c \<le> 5 \<Longrightarrow>
     c \<le> c' \<and> c' \<le> 5 \<and> frames w' = frames w @ [off + c + 1..off + c'] \<and>
     scratch w' = scratch w \<and> debug_log w' = debug_log w \<and> summary w' = summary w \<and>
     payload_closed w' = payload_closed w"
proof (induction cv b off pos c w rule: jpeg_loop.induct)
  case (1 cv buffer frame_offset pos extracted_count w)
  show ?case
  proof (cases "int pos < int (length buffer) - 1000 \<and> extracted_count < 5")
    case False
    with "1.prems" show ?thesis by (auto simp: jpeg_loop.simps [of cv buffer frame_offset pos])
  next
    case True
    show ?thesis
    proof (cases "bytes_find buffer jpeg_start pos")
      case None
      with True "1.prems" show ?thesis
        by (auto simp: jpeg_loop.simps [of cv buffer frame_offset pos])
    next
      case (Some s)
      show ?thesis
      proof (cases "bytes_find buffer jpeg_end (s + 2)")
        case None
        with True Some "1.prems" "1.IH"(1) [OF True Some None] show ?thesis
          by (simp add: jpeg_loop.simps [of cv buffer frame_offset pos])
      next
        case (Some e)
        obtain c1 w1 where sj: "save_jpeg cv (slice buffer s (e + 2))
            (frame_offset + extracted_count + 1) extracted_count w = (c1, w1)"
          by (cases "save_jpeg cv (slice buffer s (e + 2))
            (frame_offset + extracted_count + 1) extracted_count w") auto
        from True \<open>bytes_find buffer jpeg_start pos = Some s\<close> Some sj "1.prems"
        have run: "jpeg_loop cv buffer frame_offset (e + 2) c1 w1 = (pos', c', w')"
          by (simp add: jpeg_loop.simps [of cv buffer frame_offset pos])
        from save_jpeg_cases [OF sj] True have c1: "c1 \<le> 5" by auto
        note ih = "1.IH"(2) [OF True \<open>bytes_find buffer jpeg_start pos = Some s\<close> Some sj [symmetric] run c1]
        from save_jpeg_cases [OF sj] show ?thesis
        proof
          assume a: "c1 = extracted_count + 1 \<and> w1 = write_frame_file (frame_offset + extracted_count + 1) w"
          with ih have "extracted_count < c'" by simp
          from upto_cons [OF this, of frame_offset] a ih show ?thesis
            by (simp add: write_frame_file_def)
        next
          assume "c1 = extracted_count \<and> w1 = w"
          with ih show ?thesis by simp
        qed
      qed
    qed
  qed
qed

lemma read_frames_inv:
  "read_frames cv off m rs fc c w = (raised, c', w') \<Longrightarrow>
     c \<le> c' \<and> c' - c \<le> max 0 (m - fc) \<and> frames w' = frames w @ [off + c + 1..off + c'] \<and>
     scratch w' = scratch w \<and> debug_log w' = debug_log w \<and> summary w' = summary w \<and>
     payload_closed w' = payload_closed w"
proof (induction cv off m rs fc c w rule: read_frames.induct)
  case (1 cv frame_offset max_frames frame_count extracted_count w)
  then show ?case by simp
next
  case (2 cv frame_offset max_frames r reads frame_count extracted_count w)
  show ?case
  proof (cases "frame_count < max_frames")
    case False
    with "2.prems" show ?thesis by simp
  next
    case True
    show ?thesis
    proof (cases r)
      case NoFrame
      with True "2.prems" show ?thesis by simp
    next
      case ReadRaises
      with True "2.prems" show ?thesis by simp
    next
      case (Frame frame)
      show ?thesis
      proof (cases "imwrite cv (frame_offset + extracted_count + 1) frame")
        case Written
        with True Frame "2.prems" have run:
          "read_frames cv frame_offset max_frames reads (frame_count + 1) (extracted_count + 1)
             (write_frame_file (frame_offset + extracted_count + 1) w) = (raised, c', w')"
          by simp
        note ih = "2.IH"(1) [OF True Frame Written run]
        then have "extracted_count < c'" by simp
        from upto_cons [OF this, of frame_offset] ih True show ?thesis
          by (simp add: write_frame_file_def)
      next
        case NotWritten
        with True Frame "2.prems" "2.IH"(2) [OF True Frame NotWritten] show ?thesis
          by simp
      next
        case ImwriteRaises
        with True Frame "2.prems" show ?thesis by simp
      qed
    qed
  qed
qed

lemma try_format_inv:
  assumes "try_format cv b off fmt c w = (raised, c', w')"
  shows "c \<le> c' \<and> c' - c \<le> max 0 (min 5 (10 - off)) \<and>
     frames w' = frames w @ [off + c + 1..off + c'] \<and>
     scratch w' = removeAll (TempStream off fmt) (scratch w) \<and>
     debug_log w' = debug_log w @ [TryingFormat fmt] \<and> summary w' = summary w \<and>
     payload_closed w' = payload_closed w"
proof -
  let ?w1 = "write_scratch (TempStream off fmt) (w\<lparr>debug_log := debug_log w @ [TryingFormat fmt]\<rparr>)"
  have clean: "\<And>v. scratch v = scratch ?w1 \<Longrightarrow>
     scratch (cleanup_scratch (TempStream off fmt) v) = removeAll (TempStream off fmt) (scratch w)"
    by (simp add: cleanup_scratch_def write_scratch_def List.insert_def)
  have keep: "\<And>v f. frames (cleanup_scratch f v) = frames v \<and>
     debug_log (cleanup_scratch f v) = debug_log v \<and> summary (cleanup_scratch f v) = summary v \<and>
     payload_closed (cleanup_scratch f v) = payload_closed v"
    by (simp add: cleanup_scratch_def)
  have w1: "frames ?w1 = frames w \<and> debug_log ?w1 = debug_log w @ [TryingFormat fmt] \<and>
     summary ?w1 = summary w \<and> payload_closed ?w1 = payload_closed w"
    by (simp add: write_scratch_def)
  show ?thesis
  proof (cases "VideoCapture cv (TempStream off fmt) b")
    case OpenRaises
    with assms clean [of ?w1] keep [of "TempStream off fmt" ?w1] w1 show ?thesis
      by (auto simp: try_format_def Let_def)
  next
    case NotOpened
    with assms clean [of ?w1] keep [of "TempStream off fmt" ?w1] w1 show ?thesis
      by (auto simp: try_format_def Let_def)
  next
    case (Opened reads)
    obtain r c2 w2 where rf:
      "read_frames cv off (min 5 (10 - off)) reads 0 c ?w1 = (r, c2, w2)"
      by (cases "read_frames cv off (min 5 (10 - off)) reads 0 c ?w1") auto
    from read_frames_inv [OF rf] assms Opened rf clean [of w2] keep [of "TempStream off fmt" w2] w1
    show ?thesis
      by (auto simp: try_format_def Let_def)
  qed
qed

lemma upto_append_int:
  "c \<le> c1 \<Longrightarrow> c1 \<le> c' \<Longrightarrow>
   [a + c + 1..a + c1] @ [a + c1 + 1..a + c'] = [a + c + 1..a + (c'::int)]"
  using upto_split2 [of "a + c + 1" "a + c1" "a + c'"]
  by (cases "c = c1") (simp_all add: add.assoc)

lemma try_formats_inv:
  "try_formats cv b off fmts c w = (c', w') \<Longrightarrow>
     c \<le> c' \<and> frames w' = frames w @ [off + c + 1..off + c'] \<and>
     set (scratch w') \<subseteq> set (scratch w) \<and>
     (\<exists>tried. prefix tried fmts \<and> debug_log w' = debug_log w @ map TryingFormat tried \<and>
        (\<forall>f \<in> set tried. TempStream off f \<notin> set (scratch w'))) \<and>
     summary w' = summary w \<and> payload_closed w' = payload_closed w"
proof (induction cv b off fmts c w rule: try_formats.induct)
  case (1 cv stream_buffer frame_offset extracted_count w)
  then show ?case by simp
next
  case (2 cv stream_buffer frame_offset fmt fmts extracted_count w)
  show ?case
  proof (cases "0 < extracted_count")
    case True
    with "2.prems" show ?thesis by simp
  next
    case False
    obtain r c1 w1 where tf:
      "try_format cv stream_buffer frame_offset fmt extracted_count w = (r, c1, w1)"
      by (cases "try_format cv stream_buffer frame_offset fmt extracted_count w") auto
    note t = try_format_inv [OF tf]
    then have gone: "TempStream frame_offset fmt \<notin> set (scratch w1)"
      and sub: "set (scratch w1) \<subseteq> set (scratch w)"
      by auto
    show ?thesis
    proof (cases "r \<or> \<not> 0 < c1")
      case True
      with False tf "2.prems" have run:
        "try_formats cv stream_buffer frame_offset fmts c1 w1 = (c', w')"
        by (auto split: if_splits)
      have "c1 \<le> c' \<and> frames w' = frames w1 @ [frame_offset + c1 + 1..frame_offset + c'] \<and>
         set (scratch w') \<subseteq> set (scratch w1) \<and>
         (\<exists>tried. prefix tried fmts \<and> debug_log w' = debug_log w1 @ map TryingFormat tried \<and>
            (\<forall>f \<in> set tried. TempStream frame_offset f \<notin> set (scratch w'))) \<and>
         summary w' = summary w1 \<and> payload_closed w' = payload_closed w1"
      proof (cases r)
        case True
        from "2.IH"(1) [OF False tf [symmetric] refl True run] show ?thesis by simp
      next
        case r: False
        with True have "\<not> 0 < c1" by simp
        from "2.IH"(2) [OF False tf [symmetric] refl r this run] show ?thesis by simp
      qed
      then obtain tried where ih: "c1 \<le> c'"
        "frames w' = frames w1 @ [frame_offset + c1 + 1..frame_offset + c']"
        "set (scratch w') \<subseteq> set (scratch w1)" "prefix tried fmts"
        "debug_log w' = debug_log w1 @ map TryingFormat tried"
        "\<forall>f \<in> set tried. TempStream frame_offset f \<notin> set (scratch w')"
        "summary w' = summary w1" "payload_closed w' = payload_closed w1"
        by blast
      have fr: "frames w' = frames w @ [frame_offset + extracted_count + 1..frame_offset + c']"
        using t ih(1,2) upto_append_int [of extracted_count c1 c' frame_offset] by simp
      have lg: "prefix (fmt # tried) (fmt # fmts) \<and>
          debug_log w' = debug_log w @ map TryingFormat (fmt # tried) \<and>
          (\<forall>f \<in> set (fmt # tried). TempStream frame_offset f \<notin> set (scratch w'))"
        using t ih(3-6) gone by auto
      then have ex: "\<exists>tried. prefix tried (fmt # fmts) \<and>
          debug_log w' = debug_log w @ map TryingFormat tried \<and>
          (\<forall>f \<in> set tried. TempStream frame_offset f \<notin> set (scratch w'))"
        by blast
      have le: "extracted_count \<le> c'" using t ih(1) by linarith
      have sb: "set (scratch w') \<subseteq> set (scratch w)" using ih(3) sub by blast
      have rest: "summary w' = summary w \<and> payload_closed w' = payload_closed w"
        using t ih(7,8) by simp
      from le fr sb ex rest show ?thesis by simp
    next
      case stop: False
      with False tf "2.prems" have eq: "c' = c1 \<and> w' = w1" by auto
      have "prefix [fmt] (fmt # fmts) \<and>
          debug_log w' = debug_log w @ map TryingFormat [fmt] \<and>
          (\<forall>f \<in> set [fmt]. TempStream frame_offset f \<notin> set (scratch w'))"
        using t eq gone by simp
      then have ex: "\<exists>tried. prefix tried (fmt # fmts) \<and>
          debug_log w' = debug_log w @ map TryingFormat tried \<and>
          (\<forall>f \<in> set tried. TempStream frame_offset f \<notin> set (scratch w'))"
        by blast
      from t eq sub ex show ?thesis by simp
    qed
  qed
qed

lemma try_decode_raw_frame_inv:
  assumes "try_decode_raw_frame cv d idx t w = (ok, w')"
  shows "frames w' = (if ok then frames w @ [idx + 1] else frames w) \<and>
     set (scratch w') \<subseteq> set (scratch w) \<and>
     TempRaw idx (if t = H264 then ''mp4'' else ''webm'') \<notin> set (scratch w') \<and>
     debug_log w' = debug_log w \<and> summary w' = summary w \<and>
     payload_closed w' = payload_closed w"
  using assms
  by (auto simp: try_decode_raw_frame_def Let_def cleanup_scratch_def write_scratch_def
      write_frame_file_def List.insert_def
      split: capture.splits list.splits read_outcome.splits imwrite_outcome.splits if_splits)

lemma raw_iteration_inv:
  assumes "raw_iteration cv b off pos c w = Some (pos', c', w')"
  shows "((c' = c + 1 \<and> frames w' = frames w @ [off + c + 1]) \<or> (c' = c \<and> frames w' = frames w)) \<and>
     set (scratch w') \<subseteq> set (scratch w) \<and>
     debug_log w' = debug_log w \<and> summary w' = summary w \<and>
     payload_closed w' = payload_closed w"
proof -
  from assms obtain q t ok where
    td: "try_decode_raw_frame cv (slice b q (min (q + 51200) (length b))) (off + c) t w = (ok, w')"
    and c': "c' = (if ok then c + 1 else c)"
    by (auto simp: raw_iteration_def Let_def split: option.splits prod.splits)
  from try_decode_raw_frame_inv [OF td] c' show ?thesis
    by (auto simp: add.assoc)
qed

lemma raw_loop_inv:
  "raw_loop cv b off pos c w = (pos', c', w') \<Longrightarrow> c \<le> 3 \<Longrightarrow>
     c \<le> c' \<and> c' \<le> 3 \<and> frames w' = frames w @ [off + c + 1..off + c'] \<and>
     set (scratch w') \<subseteq> set (scratch w) \<and> debug_log w' = debug_log w \<and>
     summary w' = summary w \<and> payload_closed w' = payload_closed w"
proof (induction cv b off pos c w rule: raw_loop.induct)
  case (1 cv buffer frame_offset pos extracted_count w)
  show ?case
  proof (cases "int pos < int (length buffer) - 10000 \<and> extracted_count < 3")
    case False
    with "1.prems" show ?thesis by (auto simp: raw_loop.simps [of cv buffer frame_offset pos])
  next
    case True
    show ?thesis
    proof (cases "raw_iteration cv buffer frame_offset pos extracted_count w")
      case None
      with True "1.prems" show ?thesis
        by (auto simp: raw_loop.simps [of cv buffer frame_offset pos])
    next
      case (Some x)
      obtain p1 c1 w1 where x: "x = (p1, c1, w1)" by (cases x) auto
      with Some have it: "raw_iteration cv buffer frame_offset pos extracted_count w = Some (p1, c1, w1)"
        by simp
      with True "1.prems" have run: "raw_loop cv buffer frame_offset p1 c1 w1 = (pos', c', w')"
        by (simp add: raw_loop.simps [of cv buffer frame_offset pos])
      note ri = raw_iteration_inv [OF it]
      with True have c1: "c1 \<le> 3" by auto
      have ih: "c1 \<le> c' \<and> c' \<le> 3 \<and>
         frames w' = frames w1 @ [frame_offset + c1 + 1..frame_offset + c'] \<and>
         set (scratch w') \<subseteq> set (scratch w1) \<and> debug_log w' = debug_log w1 \<and>
         summary w' = summary w1 \<and> payload_closed w' = payload_closed w1"
        using "1.IH" [OF True Some x [symmetric] refl run c1] by simp
      from ri show ?thesis
      proof (elim conjE disjE)
        assume a: "c1 = extracted_count + 1"
          "frames w1 = frames w @ [frame_offset + extracted_count + 1]"
          and r: "set (scratch w1) \<subseteq> set (scratch w)" "debug_log w1 = debug_log w"
          "summary w1 = summary w" "payload_closed w1 = payload_closed w"
        with ih have "extracted_count < c'" by simp
        from upto_cons [OF this, of frame_offset] a r ih show ?thesis
          by auto
      next
        assume a: "c1 = extracted_count" "frames w1 = frames w"
          and r: "set (scratch w1) \<subseteq> set (scratch w)" "debug_log w1 = debug_log w"
          "summary w1 = summary w" "payload_closed w1 = payload_closed w"
        with ih show ?thesis by auto
      qed
    qed
  qed
qed

lemma try_formats_bound:
  "try_formats cv b off fmts c w = (c', w') \<Longrightarrow> 0 \<le> c \<Longrightarrow> c' \<le> max c 5"
proof (induction cv b off fmts c w rule: try_formats.induct)
  case (1 cv stream_buffer frame_offset extracted_count w)
  then show ?case by simp
next
  case (2 cv stream_buffer frame_offset fmt fmts extracted_count w)
  show ?case
  proof (cases "0 < extracted_count")
    case True
    with "2.prems" show ?thesis by simp
  next
    case False
    obtain r c1 w1 where tf:
      "try_format cv stream_buffer frame_offset fmt extracted_count w = (r, c1, w1)"
      by (cases "try_format cv stream_buffer frame_offset fmt extracted_count w") auto
    from try_format_inv [OF tf] False "2.prems"(2)
    have c1: "0 \<le> c1 \<and> c1 \<le> 5" by auto
    show ?thesis
    proof (cases "r \<or> \<not> 0 < c1")
      case True
      with False tf "2.prems" have run:
        "try_formats cv stream_buffer frame_offset fmts c1 w1 = (c', w')"
        by (auto split: if_splits)
      have "c' \<le> max c1 5"
      proof (cases r)
        case True
        from "2.IH"(1) [OF False tf [symmetric] refl True run] c1 show ?thesis by simp
      next
        case r: False
        with True have "\<not> 0 < c1" by simp
        from "2.IH"(2) [OF False tf [symmetric] refl r this run] c1 show ?thesis by simp
      qed
      with c1 show ?thesis by linarith
    next
      case stop: False
      with False tf "2.prems" have "c' = c1" by auto
      with c1 show ?thesis by linarith
    qed
  qed
qed

lemma cascade_inv:
  assumes "extract_frames_from_stream_buffer cv b off w = (r, w')"
  shows "\<exists>n. r = Returns n \<and> 0 \<le> n \<and> n \<le> 5 \<and> frames w' = frames w @ [off + 1..off + n] \<and>
     set (scratch w') \<subseteq> set (scratch w) \<and> summary w' = summary w \<and>
     payload_closed w' = payload_closed w"
proof -
  obtain c1 w1 where tf: "try_formats cv b off video_formats 0 w = (c1, w1)"
    by (cases "try_formats cv b off video_formats 0 w") auto
  note t = try_formats_inv [OF tf] 
  from try_formats_bound [OF tf] have b1: "c1 \<le> 5" by simp
  show ?thesis
  proof (cases "c1 = 0")
    case False
    with assms tf t b1 show ?thesis
      by (auto simp: extract_frames_from_stream_buffer_def)
  next
    case c1: True
    let ?w1 = "w1\<lparr>debug_log := debug_log w1 @ [TryingEmbeddedJpeg]\<rparr>"
    obtain p2 c2 w2 where jl: "jpeg_loop cv b off 0 0 ?w1 = (p2, c2, w2)"
      by (cases "jpeg_loop cv b off 0 0 ?w1") auto
    from jpeg_loop_inv [OF jl] have j: "0 \<le> c2 \<and> c2 \<le> 5 \<and>
       frames w2 = frames w1 @ [off + 1..off + c2] \<and> scratch w2 = scratch w1 \<and>
       summary w2 = summary w1 \<and> payload_closed w2 = payload_closed w1"
      by simp
    show ?thesis
    proof (cases "c2 = 0")
      case False
      with assms tf c1 jl t j show ?thesis
        by (auto simp: extract_frames_from_stream_buffer_def extract_jpeg_from_buffer_def)
    next
      case c2: True
      let ?w2 = "w2\<lparr>debug_log := debug_log w2 @ [TryingRawVideo]\<rparr>"
      obtain p3 c3 w3 where rl: "raw_loop cv b off 0 0 ?w2 = (p3, c3, w3)"
        by (cases "raw_loop cv b off 0 0 ?w2") auto
      from raw_loop_inv [OF rl] have "0 \<le> c3 \<and> c3 \<le> 3 \<and>
         frames w3 = frames w2 @ [off + 1..off + c3] \<and> set (scratch w3) \<subseteq> set (scratch w2) \<and>
         summary w3 = summary w2 \<and> payload_closed w3 = payload_closed w2"
        by simp
      with assms tf c1 c2 jl rl t j show ?thesis
        by (auto simp: extract_frames_from_stream_buffer_def extract_jpeg_from_buffer_def
            extract_raw_video_frames_def)
    qed
  qed
qed

section \<open>The frame files of a session\<close>

lemma upto_from_one: "0 \<le> a \<Longrightarrow> 0 \<le> n \<Longrightarrow> [1..a] @ [a + 1..a + n] = [1..a + (n::int)]"
  using upto_append_int [of 0 a "a + n" 0] by simp

lemma add_frames_inv:
  assumes "saved_count s = frames_extracted s" and "0 \<le> frames_extracted s" and "0 \<le> n"
  shows "saved_count (add_frames n s) = frames_extracted s + n \<and>
     frames_extracted (add_frames n s) = frames_extracted s + n \<and>
     stream_buffer (add_frames n s) = stream_buffer s \<and>
     chunk_count (add_frames n s) = chunk_count s \<and>
     total_bytes_read (add_frames n s) = total_bytes_read s"
  using assms by (simp add: add_frames_def)

lemma read_loop_inv:
  "read_loop cv cfg t0 ticks s w = (s', w') \<Longrightarrow>
   saved_count s = frames_extracted s \<Longrightarrow> 0 \<le> frames_extracted s \<Longrightarrow>
   frames w = base @ [1..frames_extracted s] \<Longrightarrow>
     saved_count s' = frames_extracted s' \<and> 0 \<le> frames_extracted s' \<and>
     frames w' = base @ [1..frames_extracted s'] \<and> set (scratch w') \<subseteq> set (scratch w) \<and>
     summary w' = summary w \<and> payload_closed w' = payload_closed w"
proof (induction ticks arbitrary: s w)
  case Nil
  then show ?case by simp
next
  case (Cons tick ticks)
  obtain current_time r where tick: "tick = (current_time, r)" by (cases tick) auto
  let ?go = "frames_extracted s < max_frames cfg \<and> \<not> 60 < current_time - t0"
  show ?case
  proof (cases "?go \<and> (\<exists>chunk. r = Chunk chunk \<and> chunk \<noteq> [])")
    case False
    with Cons.prems tick have "s' = s \<and> w' = w"
      by (auto split: read_result.splits if_splits)
    with Cons.prems show ?thesis by simp
  next
    case True
    then obtain chunk where r: "r = Chunk chunk" "chunk \<noteq> []" by blast
    define s1 where "s1 = s\<lparr>total_bytes_read := total_bytes_read s + int (length chunk),
        chunk_count := chunk_count s + 1, stream_buffer := stream_buffer s @ chunk\<rparr>"
    have s1: "saved_count s1 = frames_extracted s1" "0 \<le> frames_extracted s1"
      "frames_extracted s1 = frames_extracted s"
      using Cons.prems(2,3) by (simp_all add: s1_def)
    have step: "read_loop cv cfg t0 (tick # ticks) s w =
       (if chunk_count s1 mod 3 = 0 \<and> 200000 < length (stream_buffer s1) then
          (case extract_frames_from_stream_buffer cv (stream_buffer s1) (frames_extracted s1) w of
             (Raises, w') \<Rightarrow> (s1, w')
           | (Returns new_frames, w') \<Rightarrow>
               read_loop cv cfg t0 ticks (trim_session (add_frames new_frames s1)) w')
        else read_loop cv cfg t0 ticks s1 w)"
      using True r tick unfolding s1_def by (simp add: Let_def)
    show ?thesis
    proof (cases "chunk_count s1 mod 3 = 0 \<and> 200000 < length (stream_buffer s1)")
      case False
      with step Cons.prems(1) have "read_loop cv cfg t0 ticks s1 w = (s', w')"
        by simp
      from Cons.IH [OF this s1(1,2)] Cons.prems(4) s1(3) show ?thesis by simp
    next
      case checkpoint: True
      obtain x w1 where ex:
        "extract_frames_from_stream_buffer cv (stream_buffer s1) (frames_extracted s1) w = (x, w1)"
        by (cases "extract_frames_from_stream_buffer cv (stream_buffer s1) (frames_extracted s1) w")
          auto
      from cascade_inv [OF ex] obtain n where n: "x = Returns n" "0 \<le> n"
        "frames w1 = frames w @ [frames_extracted s1 + 1..frames_extracted s1 + n]"
        "set (scratch w1) \<subseteq> set (scratch w)" "summary w1 = summary w"
        "payload_closed w1 = payload_closed w"
        by blast
      define s3 where "s3 = trim_session (add_frames n s1)"
      from checkpoint step Cons.prems(1) ex n(1)
      have run: "read_loop cv cfg t0 ticks s3 w1 = (s', w')"
        by (simp add: s3_def)
      from add_frames_inv [OF s1(1,2) n(2)] have s3: "saved_count s3 = frames_extracted s3"
        "0 \<le> frames_extracted s3" "frames_extracted s3 = frames_extracted s + n"
        using s1 n(2) by (simp_all add: s3_def trim_session_def)
      have "frames w1 = base @ [1..frames_extracted s3]"
        using n(3) Cons.prems(3,4) s1(3) s3(3) upto_from_one [OF Cons.prems(3) n(2)] by simp
      from Cons.IH [OF run s3(1,2) this] n(4-6) show ?thesis by auto
    qed
  qed
qed

lemma final_extraction_inv:
  assumes "final_extraction cv cfg s w = (s', w')"
    and "saved_count s = frames_extracted s" and "0 \<le> frames_extracted s"
    and "frames w = base @ [1..frames_extracted s]"
  shows "saved_count s' = frames_extracted s' \<and> 0 \<le> frames_extracted s' \<and>
     frames w' = base @ [1..frames_extracted s'] \<and> set (scratch w') \<subseteq> set (scratch w) \<and>
     summary w' = summary w \<and> payload_closed w' = payload_closed w"
proof (cases "50000 < length (stream_buffer s) \<and> frames_extracted s < max_frames cfg")
  case False
  with assms show ?thesis by (auto simp: final_extraction_def)
next
  case True
  obtain x w1 where ex:
    "extract_frames_from_stream_buffer cv (stream_buffer s) (frames_extracted s) w = (x, w1)"
    by (cases "extract_frames_from_stream_buffer cv (stream_buffer s) (frames_extracted s) w") auto
  from cascade_inv [OF ex] obtain n where n: "x = Returns n" "0 \<le> n"
    "frames w1 = frames w @ [frames_extracted s + 1..frames_extracted s + n]"
    "set (scratch w1) \<subseteq> set (scratch w)" "summary w1 = summary w"
    "payload_closed w1 = payload_closed w"
    by blast
  from True ex n(1) assms(1) have eq: "s' = add_frames n s" "w' = w1"
    by (auto simp: final_extraction_def)
  have "frames w1 = base @ [1..frames_extracted s + n]"
    using n(3) assms(4) upto_from_one [OF assms(3) n(2)] by simp
  with eq add_frames_inv [OF assms(2,3) n(2)] assms(3) n show ?thesis by simp
qed

lemma run_session_inv:
  assumes "run_session cv clk ticks cfg w = (s, w')"
  shows "saved_count s = frames_extracted s \<and> 0 \<le> frames_extracted s \<and>
     frames w' = frames w @ [1..frames_extracted s] \<and> set (scratch w') \<subseteq> set (scratch w) \<and>
     summary w' = summary w \<and> payload_closed w' = payload_closed w"
proof -
  obtain s1 w1 where rl:
    "read_loop cv cfg (process_start_time clk) ticks initial_session w = (s1, w1)"
    by (cases "read_loop cv cfg (process_start_time clk) ticks initial_session w") auto
  have init: "saved_count initial_session = frames_extracted initial_session"
    "0 \<le> frames_extracted initial_session"
    "frames w = frames w @ [1..frames_extracted initial_session]"
    by (simp_all add: initial_session_def)
  note a = read_loop_inv [OF rl init]
  from assms rl have "final_extraction cv cfg s1 w1 = (s, w')"
    by (simp add: run_session_def)
  from final_extraction_inv [OF this, of "frames w"] a show ?thesis by auto
qed

section \<open>The scan position of the embedded-image scanner\<close>

lemma index_of_bound: "index_of sub xs = Some i \<Longrightarrow> i + length sub \<le> length xs"
proof (induction xs arbitrary: i)
  case Nil
  then show ?case by (simp split: if_splits)
next
  case (Cons x xs)
  then show ?case
    by (auto simp: prefix_length_le split: if_splits dest: prefix_length_le)
qed

lemma bytes_find_bound:
  "bytes_find b sub p = Some i \<Longrightarrow> p \<le> i \<and> i + length sub \<le> length b"
  by (auto simp: bytes_find_def split: if_splits dest!: index_of_bound)

lemma jpeg_loop_pos:
  "jpeg_loop cv b off pos c w = (pos', c', w') \<Longrightarrow> pos \<le> length b \<Longrightarrow>
     pos \<le> pos' \<and> pos' \<le> length b"
proof (induction cv b off pos c w rule: jpeg_loop.induct)
  case (1 cv buffer frame_offset pos extracted_count w)
  show ?case
  proof (cases "int pos < int (length buffer) - 1000 \<and> extracted_count < 5")
    case False
    with "1.prems" show ?thesis by (auto simp: jpeg_loop.simps [of cv buffer frame_offset pos])
  next
    case True
    show ?thesis
    proof (cases "bytes_find buffer jpeg_start pos")
      case None
      with True "1.prems" show ?thesis
        by (auto simp: jpeg_loop.simps [of cv buffer frame_offset pos])
    next
      case (Some s)
      from bytes_find_bound [OF Some] have s: "pos \<le> s" "s + 2 \<le> length buffer"
        by (simp_all add: jpeg_start_def)
      show ?thesis
      proof (cases "bytes_find buffer jpeg_end (s + 2)")
        case None
        with True Some "1.prems" "1.IH"(1) [OF True Some None] s show ?thesis
          by (simp add: jpeg_loop.simps [of cv buffer frame_offset pos])
      next
        case (Some e)
        from bytes_find_bound [OF Some] have e: "s + 2 \<le> e" "e + 2 \<le> length buffer"
          by (simp_all add: jpeg_end_def)
        obtain c1 w1 where sj: "save_jpeg cv (slice buffer s (e + 2))
            (frame_offset + extracted_count + 1) extracted_count w = (c1, w1)"
          by (cases "save_jpeg cv (slice buffer s (e + 2))
            (frame_offset + extracted_count + 1) extracted_count w") auto
        from True \<open>bytes_find buffer jpeg_start pos = Some s\<close> Some sj "1.prems"
        have run: "jpeg_loop cv buffer frame_offset (e + 2) c1 w1 = (pos', c', w')"
          by (simp add: jpeg_loop.simps [of cv buffer frame_offset pos])
        from "1.IH"(2) [OF True \<open>bytes_find buffer jpeg_start pos = Some s\<close> Some sj [symmetric] run e(2)]
          s e show ?thesis by simp
      qed
    qed
  qed
qed

section \<open>Claims about the scanners and the session\<close>

text \<open>
  Claim C8. For every buffer, one call of the embedded-image scanner returns a count
  between 0 and 5, the frame files it leaves are exactly that many (numbered from
  \<open>frame_offset + 1\<close>), and the scan position it stops at is within the buffer. The scan
  always stops: \<open>jpeg_loop\<close> is a total function.
\<close>

theorem jpeg_scanner_capped:
  "0 \<le> fst (extract_jpeg_from_buffer cv b off w) \<and>
   fst (extract_jpeg_from_buffer cv b off w) \<le> 5 \<and>
   frames (snd (extract_jpeg_from_buffer cv b off w)) =
     frames w @ [off + 1..off + fst (extract_jpeg_from_buffer cv b off w)] \<and>
   length (frames (snd (extract_jpeg_from_buffer cv b off w))) \<le> length (frames w) + 5 \<and>
   fst (jpeg_loop cv b off 0 0 w) \<le> length b"
proof -
  obtain p c w' where jl: "jpeg_loop cv b off 0 0 w = (p, c, w')"
    by (cases "jpeg_loop cv b off 0 0 w") auto
  from jpeg_loop_inv [OF jl] have inv: "0 \<le> c" "c \<le> 5" "frames w' = frames w @ [off + 1..off + c]"
    by simp_all
  from jpeg_loop_pos [OF jl] have "p \<le> length b" by simp
  with inv jl show ?thesis by (simp add: extract_jpeg_from_buffer_def)
qed

text \<open>
  Claim C2. In a session that starts in a fresh session directory, the frame files
  present at the end carry, in the order they were written, the numbers 1, 2, ... up to
  the number of frames the session counted: strictly increasing, without gap or
  repetition, whichever strategy wrote each of them.
\<close>

theorem frame_numbers_consecutive:
  "frames (snd (process_live_stream_data cv name clk ticks dir cfg fresh_world)) =
     [1..frames_extracted (fst (run_session cv clk ticks cfg fresh_world))] \<and>
   sorted_wrt (<) (frames (snd (process_live_stream_data cv name clk ticks dir cfg fresh_world))) \<and>
   distinct (frames (snd (process_live_stream_data cv name clk ticks dir cfg fresh_world)))"
proof -
  obtain s w' where rs: "run_session cv clk ticks cfg fresh_world = (s, w')"
    by (cases "run_session cv clk ticks cfg fresh_world") auto
  from run_session_inv [OF rs] have "frames w' = [1..frames_extracted s]"
    by (simp add: fresh_world_def)
  with rs show ?thesis
    by (simp add: process_live_stream_data_def save_live_summary_def split: option.splits)
qed






section \<open>Evaluating the scanners\<close>

lemma length_padding: "length padding = 60000"
  by (simp add: padding_def)

lemma set_padding: "set padding = {0}"
  by (simp add: padding_def)

lemma index_of_absent: "sub \<noteq> [] \<Longrightarrow> hd sub \<notin> set xs \<Longrightarrow> index_of sub xs = None"
proof (induction xs)
  case Nil
  then show ?case by simp
next
  case (Cons x xs)
  then have "\<not> prefix sub (x # xs)"
    by (cases sub) auto
  with Cons show ?case by simp
qed

lemma jpeg_loop_found:
  assumes "int pos < int (length b) - 1000" and "c < 5"
    and "bytes_find b jpeg_start pos = Some s"
    and "bytes_find b jpeg_end (s + 2) = Some e"
    and "imread cv (slice b s (e + 2)) = Decoded img"
    and "pos' = e + 2" and "c' = c + 1" and "w' = write_frame_file (off + c + 1) w"
  shows "jpeg_loop cv b off pos c w = jpeg_loop cv b off pos' c' w'"
  using assms by (simp add: jpeg_loop.simps [of cv b off pos] save_jpeg_def Let_def)

lemma jpeg_loop_done:
  assumes "\<not> (int pos < int (length b) - 1000 \<and> c < 5) \<or> bytes_find b jpeg_start pos = None"
  shows "jpeg_loop cv b off pos c w = (pos, c, w)"
  using assms by (auto simp: jpeg_loop.simps [of cv b off pos])

lemma five_find:
  "bytes_find five_jpegs_buffer jpeg_start 0 = Some 0"
  "bytes_find five_jpegs_buffer jpeg_end 2 = Some 2"
  "bytes_find five_jpegs_buffer jpeg_end (Suc (Suc 0)) = Some 2"
  "bytes_find five_jpegs_buffer jpeg_start 4 = Some 4"
  "bytes_find five_jpegs_buffer jpeg_end 6 = Some 6"
  "bytes_find five_jpegs_buffer jpeg_start 8 = Some 8"
  "bytes_find five_jpegs_buffer jpeg_end 10 = Some 10"
  "bytes_find five_jpegs_buffer jpeg_start 12 = Some 12"
  "bytes_find five_jpegs_buffer jpeg_end 14 = Some 14"
  "bytes_find five_jpegs_buffer jpeg_start 16 = Some 16"
  "bytes_find five_jpegs_buffer jpeg_end 18 = Some 18"
  by (simp_all add: bytes_find_def five_jpegs_buffer_def jpeg_start_def jpeg_end_def length_padding)

lemma five_slice:
  "slice five_jpegs_buffer 0 4 = [0xFF, 0xD8, 0xFF, 0xD9]"
  "slice five_jpegs_buffer 4 8 = [0xFF, 0xD8, 0xFF, 0xD9]"
  "slice five_jpegs_buffer 8 12 = [0xFF, 0xD8, 0xFF, 0xD9]"
  "slice five_jpegs_buffer 12 16 = [0xFF, 0xD8, 0xFF, 0xD9]"
  "slice five_jpegs_buffer 16 20 = [0xFF, 0xD8, 0xFF, 0xD9]"
  by (simp_all add: slice_def five_jpegs_buffer_def)

lemma five_length: "length five_jpegs_buffer = 60020"
  by (simp add: five_jpegs_buffer_def length_padding)

lemma five_jpeg_loop:
  "jpeg_loop cv_still five_jpegs_buffer off 0 0 w =
     (20, 5, w\<lparr>frames := frames w @ [off + 1, off + 2, off + 3, off + 4, off + 5]\<rparr>)"
proof -
  let ?w1 = "write_frame_file (off + 1) w"
  let ?w2 = "write_frame_file (off + 2) ?w1"
  let ?w3 = "write_frame_file (off + 3) ?w2"
  let ?w4 = "write_frame_file (off + 4) ?w3"
  let ?w5 = "write_frame_file (off + 5) ?w4"
  have im: "imread cv_still [0xFF, 0xD8, 0xFF, 0xD9] = Decoded (Image 0)"
    by (simp add: cv_still_def)
  have "jpeg_loop cv_still five_jpegs_buffer off 0 0 w =
      jpeg_loop cv_still five_jpegs_buffer off 4 1 ?w1"
    by (rule jpeg_loop_found [where s = 0 and e = 2 and img = "Image 0"])
      (simp_all add: five_find five_slice five_length im add.commute)
  also have "\<dots> = jpeg_loop cv_still five_jpegs_buffer off 8 2 ?w2"
    by (rule jpeg_loop_found [where s = 4 and e = 6 and img = "Image 0"])
      (simp_all add: five_find five_slice five_length im add.commute)
  also have "\<dots> = jpeg_loop cv_still five_jpegs_buffer off 12 3 ?w3"
    by (rule jpeg_loop_found [where s = 8 and e = 10 and img = "Image 0"])
      (simp_all add: five_find five_slice five_length im add.commute)
  also have "\<dots> = jpeg_loop cv_still five_jpegs_buffer off 16 4 ?w4"
    by (rule jpeg_loop_found [where s = 12 and e = 14 and img = "Image 0"])
      (simp_all add: five_find five_slice five_length im add.commute)
  also have "\<dots> = jpeg_loop cv_still five_jpegs_buffer off 20 5 ?w5"
    by (rule jpeg_loop_found [where s = 16 and e = 18 and img = "Image 0"])
      (simp_all add: five_find five_slice five_length im add.commute)
  also have "\<dots> = (20, 5, ?w5)"
    by (rule jpeg_loop_done) simp
  finally show ?thesis by (simp add: write_frame_file_def)
qed

section \<open>The cascade on a buffer without container structure\<close>

lemma try_format_closed:
  assumes "VideoCapture cv (TempStream off fmt) b = NotOpened"
  shows "try_format cv b off fmt c w =
     (False, c, cleanup_scratch (TempStream off fmt)
        (write_scratch (TempStream off fmt) (w\<lparr>debug_log := debug_log w @ [TryingFormat fmt]\<rparr>)))"
  using assms by (simp add: try_format_def Let_def)

lemma try_formats_closed:
  assumes "\<And>fmt. fmt \<in> set fmts \<Longrightarrow> VideoCapture cv (TempStream off fmt) b = NotOpened"
  shows "fst (try_formats cv b off fmts 0 w) = 0 \<and>
     frames (snd (try_formats cv b off fmts 0 w)) = frames w \<and>
     debug_log (snd (try_formats cv b off fmts 0 w)) = debug_log w @ map TryingFormat fmts"
  using assms
proof (induction fmts arbitrary: w)
  case Nil
  then show ?case by simp
next
  case (Cons fmt fmts)
  let ?w1 = "cleanup_scratch (TempStream off fmt)
        (write_scratch (TempStream off fmt) (w\<lparr>debug_log := debug_log w @ [TryingFormat fmt]\<rparr>))"
  have w1: "frames ?w1 = frames w" "debug_log ?w1 = debug_log w @ [TryingFormat fmt]"
    by (simp_all add: cleanup_scratch_def write_scratch_def)
  have "try_formats cv b off (fmt # fmts) 0 w = try_formats cv b off fmts 0 ?w1"
    using try_format_closed [of cv off fmt b 0 w] Cons.prems by simp
  with Cons.IH [of ?w1] Cons.prems w1 show ?case by simp
qed

lemma cascade_single_jpeg:
  assumes closed: "\<And>fmt. fmt \<in> set video_formats \<Longrightarrow>
        VideoCapture cv (TempStream off fmt) b = NotOpened"
    and len: "1000 < length b"
    and s: "bytes_find b jpeg_start 0 = Some s"
    and e: "bytes_find b jpeg_end (s + 2) = Some e"
    and img: "imread cv (slice b s (e + 2)) = Decoded img"
    and nomore: "bytes_find b jpeg_start (e + 2) = None"
  shows "fst (extract_frames_from_stream_buffer cv b off w) = Returns 1 \<and>
     frames (snd (extract_frames_from_stream_buffer cv b off w)) = frames w @ [off + 1] \<and>
     debug_log (snd (extract_frames_from_stream_buffer cv b off w)) =
       debug_log w @ [TryingFormat ''webm'', TryingFormat ''mkv'', TryingFormat ''mp4'',
                      TryingEmbeddedJpeg]"
proof -
  obtain c1 w1 where tf: "try_formats cv b off video_formats 0 w = (c1, w1)"
    by (cases "try_formats cv b off video_formats 0 w") auto
  from try_formats_closed [of video_formats cv off b w] closed tf
  have t: "c1 = 0" "frames w1 = frames w"
    "debug_log w1 = debug_log w @ map TryingFormat video_formats"
    by simp_all
  let ?w1 = "w1\<lparr>debug_log := debug_log w1 @ [TryingEmbeddedJpeg]\<rparr>"
  have "jpeg_loop cv b off 0 0 ?w1 = jpeg_loop cv b off (e + 2) 1 (write_frame_file (off + 1) ?w1)"
    by (rule jpeg_loop_found [where s = s and e = e and img = img])
      (use len s e img in simp_all)
  also have "\<dots> = (e + 2, 1, write_frame_file (off + 1) ?w1)"
    by (rule jpeg_loop_done, rule disjI2, rule nomore)
  finally have "extract_jpeg_from_buffer cv b off ?w1 = (1, write_frame_file (off + 1) ?w1)"
    by (simp add: extract_jpeg_from_buffer_def)
  with tf t show ?thesis
    by (simp add: extract_frames_from_stream_buffer_def write_frame_file_def video_formats_def)
qed

lemma one_jpeg_facts:
  "1000 < length one_jpeg_buffer"
  "bytes_find one_jpeg_buffer jpeg_start 0 = Some 0"
  "bytes_find one_jpeg_buffer jpeg_end (0 + 2) = Some 2"
  "imread cv_still (slice one_jpeg_buffer 0 (2 + 2)) = Decoded (Image 0)"
  "bytes_find one_jpeg_buffer jpeg_start (2 + 2) = None"
  by (simp_all add: bytes_find_def one_jpeg_buffer_def jpeg_start_def jpeg_end_def
      length_padding slice_def cv_still_def index_of_absent set_padding)

text \<open>
  Claim C4, as amended. When none of the three candidate files opens as a video and the
  buffer (of more than 1000 bytes) holds one marker pair (a first start marker, the
  first end marker after it, no start marker after that) whose bytes read back as an
  image, the cascade returns 1 and leaves the one frame file \<open>frame_offset + 1\<close>. The
  container trial decoder has run first, on all three candidates; the raw codec-unit
  scanner has not run.
\<close>

theorem single_jpeg_short_circuit:
  assumes "\<And>fmt. fmt \<in> set video_formats \<Longrightarrow>
        VideoCapture cv (TempStream off fmt) b = NotOpened"
    and "1000 < length b"
    and "bytes_find b jpeg_start 0 = Some s"
    and "bytes_find b jpeg_end (s + 2) = Some e"
    and "imread cv (slice b s (e + 2)) = Decoded img"
    and "bytes_find b jpeg_start (e + 2) = None"
  shows "fst (extract_frames_from_stream_buffer cv b off w) = Returns 1 \<and>
     frames (snd (extract_frames_from_stream_buffer cv b off w)) = frames w @ [off + 1] \<and>
     debug_log (snd (extract_frames_from_stream_buffer cv b off w)) =
       debug_log w @ [TryingFormat ''webm'', TryingFormat ''mkv'', TryingFormat ''mp4'',
                      TryingEmbeddedJpeg]"
  using assms by (rule cascade_single_jpeg)

theorem single_jpeg_short_circuit_witness:
  "1000 < length one_jpeg_buffer \<and>
   bytes_find one_jpeg_buffer jpeg_start 0 = Some 0 \<and>
   bytes_find one_jpeg_buffer jpeg_end (0 + 2) = Some 2 \<and>
   imread cv_still (slice one_jpeg_buffer 0 (2 + 2)) = Decoded (Image 0) \<and>
   bytes_find one_jpeg_buffer jpeg_start (2 + 2) = None \<and>
   fst (extract_frames_from_stream_buffer cv_still one_jpeg_buffer 7 fresh_world) = Returns 1 \<and>
   frames (snd (extract_frames_from_stream_buffer cv_still one_jpeg_buffer 7 fresh_world)) = [8] \<and>
   TryingRawVideo \<notin> set (debug_log
     (snd (extract_frames_from_stream_buffer cv_still one_jpeg_buffer 7 fresh_world)))"
proof -
  have closed: "\<And>fmt. fmt \<in> set video_formats \<Longrightarrow>
      VideoCapture cv_still (TempStream 7 fmt) one_jpeg_buffer = NotOpened"
    by (simp add: cv_still_def)
  from single_jpeg_short_circuit [OF closed one_jpeg_facts, where w = fresh_world] one_jpeg_facts
  show ?thesis by (simp add: fresh_world_def)
qed

text \<open>
  The claim C4 as stated fails: on the buffer of one marker pair, with no file opening
  as a video, the debug log of the checkpoint shows the container trial decoder at work
  on its three candidates before the embedded-image scanner.
\<close>

theorem single_jpeg_container_tried:
  "fst (extract_frames_from_stream_buffer cv_still one_jpeg_buffer 0 fresh_world) = Returns 1 \<and>
   debug_log (snd (extract_frames_from_stream_buffer cv_still one_jpeg_buffer 0 fresh_world)) =
     [TryingFormat ''webm'', TryingFormat ''mkv'', TryingFormat ''mp4'', TryingEmbeddedJpeg]"
proof -
  have closed: "\<And>fmt. fmt \<in> set video_formats \<Longrightarrow>
      VideoCapture cv_still (TempStream 0 fmt) one_jpeg_buffer = NotOpened"
    by (simp add: cv_still_def)
  from cascade_single_jpeg [OF closed one_jpeg_facts, where w = fresh_world]
  show ?thesis by (simp add: fresh_world_def)
qed

section \<open>Sessions that pass the target frame count\<close>

lemma five_cascade:
  "fst (extract_frames_from_stream_buffer cv_still five_jpegs_buffer off w) = Returns 5 \<and>
   frames (snd (extract_frames_from_stream_buffer cv_still five_jpegs_buffer off w)) =
     frames w @ [off + 1, off + 2, off + 3, off + 4, off + 5]"
proof -
  obtain c1 w1 where tf: "try_formats cv_still five_jpegs_buffer off video_formats 0 w = (c1, w1)"
    by (cases "try_formats cv_still five_jpegs_buffer off video_formats 0 w") auto
  have "\<And>fmt. VideoCapture cv_still (TempStream off fmt) five_jpegs_buffer = NotOpened"
    by (simp add: cv_still_def)
  from try_formats_closed [of video_formats cv_still off five_jpegs_buffer w, OF this] tf
  have t: "c1 = 0" "frames w1 = frames w" by simp_all
  with tf show ?thesis
    by (simp add: extract_frames_from_stream_buffer_def extract_jpeg_from_buffer_def
        five_jpeg_loop)
qed

lemma single_chunk_read_loop:
  assumes "chunk \<noteq> []" and "0 < max_frames cfg"
  shows "read_loop cv cfg 0 [(0, Chunk chunk)] initial_session w =
     (\<lparr>saved_count = 0, total_bytes_read = int (length chunk), chunk_count = 1,
       stream_buffer = chunk, frames_extracted = 0\<rparr>, w)"
  using assms by (simp add: initial_session_def Let_def)

text \<open>
  Claim C1 at a failing input: the target is one frame, the stream gives one chunk of
  60020 bytes that starts with five marker pairs and then ends, no file opens as a
  video and each marker pair reads back as an image. The final extraction attempt saves
  five frames; the session ends with \<open>frames_extracted = 5\<close> and the frame files 1 to 5.
\<close>

theorem session_exceeds_target:
  "frames_extracted (fst (run_session cv_still example_clock [(0, Chunk five_jpegs_buffer)]
       \<lparr>max_frames = 1, frame_extract_fps = 1, other_entries = []\<rparr> fresh_world)) = 5 \<and>
   frames (snd (run_session cv_still example_clock [(0, Chunk five_jpegs_buffer)]
       \<lparr>max_frames = 1, frame_extract_fps = 1, other_entries = []\<rparr> fresh_world)) = [1, 2, 3, 4, 5] \<and>
   max_frames \<lparr>max_frames = 1, frame_extract_fps = 1, other_entries = []\<rparr> = 1"
proof -
  obtain r w' where ex:
    "extract_frames_from_stream_buffer cv_still five_jpegs_buffer 0 fresh_world = (r, w')"
    by (cases "extract_frames_from_stream_buffer cv_still five_jpegs_buffer 0 fresh_world") auto
  with five_cascade [of 0 fresh_world] have r: "r = Returns 5" "frames w' = [1, 2, 3, 4, 5]"
    by (simp_all add: fresh_world_def)
  have ne: "five_jpegs_buffer \<noteq> []"
    using five_length by auto
  have rl: "read_loop cv_still \<lparr>max_frames = 1, frame_extract_fps = 1, other_entries = []\<rparr> 0
      [(0, Chunk five_jpegs_buffer)] initial_session fresh_world =
     (\<lparr>saved_count = 0, total_bytes_read = int (length five_jpegs_buffer), chunk_count = 1,
       stream_buffer = five_jpegs_buffer, frames_extracted = 0\<rparr>, fresh_world)"
    by (rule single_chunk_read_loop) (simp_all add: ne)
  have "run_session cv_still example_clock [(0, Chunk five_jpegs_buffer)]
       \<lparr>max_frames = 1, frame_extract_fps = 1, other_entries = []\<rparr> fresh_world =
     (\<lparr>saved_count = 5, total_bytes_read = int (length five_jpegs_buffer), chunk_count = 1,
       stream_buffer = five_jpegs_buffer, frames_extracted = 5\<rparr>, w')"
    using ex r
    by (simp add: run_session_def example_clock_def rl final_extraction_def five_length
        add_frames_def del: read_loop.simps)
  with r show ?thesis by simp
qed

text \<open>
  Claim C5 at a failing input: the target is three frames, the stream gives one chunk of
  60000 bytes and ends, and the file \<^verbatim>\<open>temp_stream_0.webm\<close> opens as a video of six
  frames. The limit of the candidate is \<^verbatim>\<open>min(5, 10 - 0)\<close>: five frames are read and
  saved where three remain toward the target.
\<close>

theorem container_trial_ignores_target:
  "try_format cv_video padding 0 ''webm'' 0 fresh_world =
     (False, 5, fresh_world\<lparr>frames := [1, 2, 3, 4, 5], debug_log := [TryingFormat ''webm'']\<rparr>) \<and>
   frames_extracted (fst (run_session cv_video example_clock [(0, Chunk padding)]
       \<lparr>max_frames = 3, frame_extract_fps = 1, other_entries = []\<rparr> fresh_world)) = 5 \<and>
   min 5 (max_frames \<lparr>max_frames = 3, frame_extract_fps = 1, other_entries = []\<rparr> - 0) = 3"
proof -
  have tf: "try_format cv_video padding 0 ''webm'' 0 fresh_world =
     (False, 5, fresh_world\<lparr>frames := [1, 2, 3, 4, 5], debug_log := [TryingFormat ''webm'']\<rparr>)"
    by (simp add: try_format_def cv_video_def fresh_world_def write_scratch_def
        cleanup_scratch_def write_frame_file_def)
  then have "extract_frames_from_stream_buffer cv_video padding 0 fresh_world =
     (Returns 5, fresh_world\<lparr>frames := [1, 2, 3, 4, 5], debug_log := [TryingFormat ''webm'']\<rparr>)"
    by (simp add: extract_frames_from_stream_buffer_def video_formats_def)
  moreover have ne: "padding \<noteq> []"
    using length_padding by auto
  moreover have "read_loop cv_video \<lparr>max_frames = 3, frame_extract_fps = 1, other_entries = []\<rparr> 0
      [(0, Chunk padding)] initial_session fresh_world =
     (\<lparr>saved_count = 0, total_bytes_read = int (length padding), chunk_count = 1,
       stream_buffer = padding, frames_extracted = 0\<rparr>, fresh_world)"
    by (rule single_chunk_read_loop) (simp_all add: ne)
  ultimately have "run_session cv_video example_clock [(0, Chunk padding)]
       \<lparr>max_frames = 3, frame_extract_fps = 1, other_entries = []\<rparr> fresh_world =
     (\<lparr>saved_count = 5, total_bytes_read = int (length padding), chunk_count = 1,
       stream_buffer = padding, frames_extracted = 5\<rparr>,
      fresh_world\<lparr>frames := [1, 2, 3, 4, 5], debug_log := [TryingFormat ''webm'']\<rparr>)"
    by (simp add: run_session_def example_clock_def final_extraction_def length_padding
        add_frames_def del: read_loop.simps)
  with tf show ?thesis by simp
qed


section \<open>The advance of the raw codec-unit scanner\<close>

lemma next_frame_ge:
  "next_frame b p sigs best = Some (q, t) \<Longrightarrow>
   (\<And>q' t'. best = Some (q', t') \<Longrightarrow> p \<le> q') \<Longrightarrow> p \<le> q"
proof (induction sigs arbitrary: best)
  case Nil
  then show ?case by simp
next
  case (Cons sig sigs)
  show ?case
  proof (rule Cons.IH [OF Cons.prems(1) [simplified]])
    fix q' t'
    assume "(case bytes_find b sig p of
               None \<Rightarrow> best
             | Some sig_pos \<Rightarrow>
                 (case best of
                    None \<Rightarrow> Some (sig_pos, if sig \<in> set h264_start_codes then H264 else VP)
                  | Some (next_frame_pos, ftype) \<Rightarrow>
                      if sig_pos < next_frame_pos
                      then Some (sig_pos, if sig \<in> set h264_start_codes then H264 else VP)
                      else best)) = Some (q', t')"
    then show "p \<le> q'"
      using Cons.prems(2) bytes_find_bound [of b sig p]
      by (auto split: option.splits if_splits)
  qed
qed

lemma raw_iteration_advance:
  assumes "raw_iteration cv b off pos c w = Some (pos', c', w')"
  shows "pos' = fst (the (next_frame b pos all_signatures None)) + 1000 \<and> pos < pos' \<and>
     pos' < fst (the (next_frame b pos all_signatures None)) + 51200 \<and>
     (\<forall>cv'. map_option fst (raw_iteration cv' b off pos c w) = Some pos')"
proof -
  from assms obtain q t where nf: "next_frame b pos all_signatures None = Some (q, t)"
    and p: "pos' = q + 1000"
    by (auto simp: raw_iteration_def Let_def split: option.splits prod.splits)
  from next_frame_ge [OF nf] have "pos \<le> q" by simp
  moreover have "\<And>cv'. map_option fst (raw_iteration cv' b off pos c w) = Some (q + 1000)"
    using nf by (simp add: raw_iteration_def Let_def split: prod.splits)
  ultimately show ?thesis using nf p by simp
qed

lemma nal_next_frame: "next_frame nal_buffer 0 all_signatures None = Some (0, H264)"
  by (simp add: all_signatures_def h264_start_codes_def vp_signatures_def nal_buffer_def
      bytes_find_def index_of_absent set_padding)

lemma nal_iteration_decoded:
  "raw_iteration cv_video nal_buffer 0 0 0 fresh_world =
     Some (1000, 1, fresh_world\<lparr>frames := [1]\<rparr>)"
  by (simp add: raw_iteration_def nal_next_frame Let_def try_decode_raw_frame_def cv_video_def
      write_scratch_def cleanup_scratch_def write_frame_file_def fresh_world_def)

lemma nal_iteration_failed:
  "raw_iteration cv_closed nal_buffer 0 0 0 fresh_world = Some (1000, 0, fresh_world)"
  by (simp add: raw_iteration_def nal_next_frame Let_def try_decode_raw_frame_def cv_closed_def
      write_scratch_def cleanup_scratch_def fresh_world_def)

text \<open>
  Claim C6, as amended. After a pass of the scanner loop that found a signature, the
  scan position is 1000 bytes behind the match, whatever the decode attempt gave: any
  other answers of OpenCV lead to the same position. The position has moved forward,
  and it is less than 51200 bytes behind the match, the length of the candidate window
  before the window is cut at the end of the buffer.
\<close>

theorem raw_scan_fixed_stride:
  assumes "raw_iteration cv b off pos c w = Some (pos', c', w')"
  shows "pos' = fst (the (next_frame b pos all_signatures None)) + 1000 \<and> pos < pos' \<and>
     pos' < fst (the (next_frame b pos all_signatures None)) + 51200 \<and>
     (\<forall>cv'. map_option fst (raw_iteration cv' b off pos c w) = Some pos')"
  using assms by (rule raw_iteration_advance)

theorem raw_scan_fixed_stride_witness:
  "raw_iteration cv_video nal_buffer 0 0 0 fresh_world =
     Some (1000, 1, fresh_world\<lparr>frames := [1]\<rparr>) \<and>
   (1000::nat) = fst (the (next_frame nal_buffer 0 all_signatures None)) + 1000 \<and>
   map_option fst (raw_iteration cv_closed nal_buffer 0 0 0 fresh_world) = Some 1000"
  using raw_scan_fixed_stride [OF nal_iteration_decoded] nal_iteration_decoded by simp

text \<open>
  The claim C6 as stated fails: on the same buffer, at the same match, the pass whose
  decode succeeds (count 1) and the pass whose decode fails (count 0) both move the scan
  position to 1000; the advance after the success is not the larger one, and it ends
  inside the 51200 byte window.
\<close>

theorem raw_scan_same_advance:
  "fst (snd (the (raw_iteration cv_video nal_buffer 0 0 0 fresh_world))) = 1 \<and>
   fst (snd (the (raw_iteration cv_closed nal_buffer 0 0 0 fresh_world))) = 0 \<and>
   fst (the (raw_iteration cv_video nal_buffer 0 0 0 fresh_world)) = 1000 \<and>
   fst (the (raw_iteration cv_closed nal_buffer 0 0 0 fresh_world)) = 1000 \<and>
   \<not> fst (the (raw_iteration cv_closed nal_buffer 0 0 0 fresh_world))
       < fst (the (raw_iteration cv_video nal_buffer 0 0 0 fresh_world)) \<and>
   fst (the (raw_iteration cv_video nal_buffer 0 0 0 fresh_world)) < 51200"
  by (simp add: nal_iteration_decoded nal_iteration_failed)

section \<open>Errors of a container candidate\<close>

lemma try_formats_head:
  "try_formats cv b off (fmt # fmts) 0 w =
     (if 0 < fst (snd (try_format cv b off fmt 0 w)) then snd (try_format cv b off fmt 0 w)
      else try_formats cv b off fmts 0 (snd (snd (try_format cv b off fmt 0 w))))"
proof -
  obtain r c1 w1 where tf: "try_format cv b off fmt 0 w = (r, c1, w1)"
    by (cases "try_format cv b off fmt 0 w") auto
  from try_format_inv [OF tf] have c1: "0 \<le> c1" by simp
  show ?thesis
  proof (cases "0 < c1")
    case True
    with tf show ?thesis by (cases fmts) simp_all
  next
    case False
    with c1 have "c1 = 0" by simp
    with tf show ?thesis by simp
  qed
qed

lemma faulty_try_format:
  "try_format cv_faulty padding 0 ''webm'' 0 fresh_world =
     (True, 1, fresh_world\<lparr>frames := [1], debug_log := [TryingFormat ''webm'']\<rparr>)"
  by (simp add: try_format_def cv_faulty_def fresh_world_def write_scratch_def
      cleanup_scratch_def write_frame_file_def)

text \<open>
  Claim C7, as amended. For every buffer the cascade returns a count that is not
  negative, it does not raise, and it leaves no scratch file that was not there before.
  After the attempt on a candidate, whether it raised or not, the scratch file of the
  candidate is gone. When the attempt has saved no frame the remaining candidates are
  tried; when it has saved a frame (before an error or not) the container trial decoder
  stops with these frames.
\<close>

theorem cascade_swallows_errors:
  "(\<exists>n. fst (extract_frames_from_stream_buffer cv b off w) = Returns n \<and> 0 \<le> n) \<and>
   set (scratch (snd (extract_frames_from_stream_buffer cv b off w))) \<subseteq> set (scratch w) \<and>
   TempStream off fmt \<notin> set (scratch (snd (snd (try_format cv b off fmt c w)))) \<and>
   try_formats cv b off (fmt # fmts) 0 w =
     (if 0 < fst (snd (try_format cv b off fmt 0 w)) then snd (try_format cv b off fmt 0 w)
      else try_formats cv b off fmts 0 (snd (snd (try_format cv b off fmt 0 w))))"
proof -
  obtain r w' where ex: "extract_frames_from_stream_buffer cv b off w = (r, w')"
    by (cases "extract_frames_from_stream_buffer cv b off w") auto
  from cascade_inv [OF ex] ex
  have a: "(\<exists>n. fst (extract_frames_from_stream_buffer cv b off w) = Returns n \<and> 0 \<le> n) \<and>
     set (scratch (snd (extract_frames_from_stream_buffer cv b off w))) \<subseteq> set (scratch w)"
    by auto
  obtain r1 c1 w1 where tf: "try_format cv b off fmt c w = (r1, c1, w1)"
    by (cases "try_format cv b off fmt c w") auto
  from try_format_inv [OF tf] tf
  have "TempStream off fmt \<notin> set (scratch (snd (snd (try_format cv b off fmt c w))))"
    by simp
  with a try_formats_head [of cv b off fmt fmts w] show ?thesis by blast
qed

text \<open>
  The claim C7 as stated fails where it says that the next candidate is tried after any
  error: the candidate \<^verbatim>\<open>webm\<close> opens, its first frame is saved and saving the second
  raises. The exception is caught, the cascade returns 1, and the debug log shows that
  neither \<^verbatim>\<open>mkv\<close> nor \<^verbatim>\<open>mp4\<close> was tried.
\<close>

theorem error_after_frame_stops_trial:
  "fst (try_format cv_faulty padding 0 ''webm'' 0 fresh_world) \<and>
   extract_frames_from_stream_buffer cv_faulty padding 0 fresh_world =
     (Returns 1, fresh_world\<lparr>frames := [1], debug_log := [TryingFormat ''webm'']\<rparr>)"
  by (simp add: extract_frames_from_stream_buffer_def video_formats_def faulty_try_format)

section \<open>The buffer after a checkpoint\<close>

lemma checkpoint_pass:
  assumes "frames_extracted s < max_frames cfg" and "\<not> 60 < t - start" and "chunk \<noteq> []"
    and "(chunk_count s + 1) mod 3 = 0" and "200000 < length (stream_buffer s @ chunk)"
  shows "\<exists>n w'.
     extract_frames_from_stream_buffer cv (stream_buffer s @ chunk) (frames_extracted s) w =
       (Returns n, w') \<and>
     read_loop cv cfg start ((t, Chunk chunk) # ticks) s w =
       read_loop cv cfg start ticks
         (trim_session (add_frames n
            (s\<lparr>total_bytes_read := total_bytes_read s + int (length chunk),
               chunk_count := chunk_count s + 1,
               stream_buffer := stream_buffer s @ chunk\<rparr>))) w' \<and>
     stream_buffer (trim_session (add_frames n
            (s\<lparr>total_bytes_read := total_bytes_read s + int (length chunk),
               chunk_count := chunk_count s + 1,
               stream_buffer := stream_buffer s @ chunk\<rparr>))) =
       trim_buffer (stream_buffer s @ chunk)"
proof -
  obtain r w' where ex:
    "extract_frames_from_stream_buffer cv (stream_buffer s @ chunk) (frames_extracted s) w = (r, w')"
    by (cases "extract_frames_from_stream_buffer cv (stream_buffer s @ chunk) (frames_extracted s) w")
      auto
  from cascade_inv [OF ex] obtain n where n: "r = Returns n" by blast
  have "read_loop cv cfg start ((t, Chunk chunk) # ticks) s w =
       read_loop cv cfg start ticks
         (trim_session (add_frames n
            (s\<lparr>total_bytes_read := total_bytes_read s + int (length chunk),
               chunk_count := chunk_count s + 1,
               stream_buffer := stream_buffer s @ chunk\<rparr>))) w'"
    using assms ex n by (simp add: Let_def)
  moreover have "stream_buffer (trim_session (add_frames n
            (s\<lparr>total_bytes_read := total_bytes_read s + int (length chunk),
               chunk_count := chunk_count s + 1,
               stream_buffer := stream_buffer s @ chunk\<rparr>))) =
       trim_buffer (stream_buffer s @ chunk)"
    by (simp add: trim_session_def add_frames_def)
  ultimately show ?thesis using ex n by blast
qed

text \<open>
  Claim C9. Immediately after the trim statement the buffer is at most 500000 bytes
  long (the hard cap) and is a suffix of the buffer before the trim, so bytes stay in read
  order; when the trim fires (more than 500000 bytes) exactly the last 300000 bytes are
  kept. This is the buffer of the session: the trim that ends a checkpoint replaces the
  stream buffer by its trimmed value and leaves it within the cap, and a pass of the
  reading loop that is a checkpoint goes on with the buffer read so far, trimmed.
\<close>

theorem trim_buffer_within_cap:
  "length (trim_buffer b) \<le> 500000 \<and> suffix (trim_buffer b) b \<and>
   (500000 < length b \<longrightarrow>
      length (trim_buffer b) = 300000 \<and> trim_buffer b = drop (length b - 300000) b) \<and>
   stream_buffer (trim_session s) = trim_buffer (stream_buffer s) \<and>
   length (stream_buffer (trim_session s)) \<le> 500000 \<and>
   suffix (stream_buffer (trim_session s)) (stream_buffer s) \<and>
   (frames_extracted s < max_frames cfg \<and> \<not> 60 < t - start \<and> chunk \<noteq> [] \<and>
    (chunk_count s + 1) mod 3 = 0 \<and> 200000 < length (stream_buffer s @ chunk) \<longrightarrow>
      (\<exists>n w'.
         extract_frames_from_stream_buffer cv (stream_buffer s @ chunk) (frames_extracted s) w =
           (Returns n, w') \<and>
         read_loop cv cfg start ((t, Chunk chunk) # ticks) s w =
           read_loop cv cfg start ticks
             (trim_session (add_frames n
                (s\<lparr>total_bytes_read := total_bytes_read s + int (length chunk),
                   chunk_count := chunk_count s + 1,
                   stream_buffer := stream_buffer s @ chunk\<rparr>))) w' \<and>
         stream_buffer (trim_session (add_frames n
                (s\<lparr>total_bytes_read := total_bytes_read s + int (length chunk),
                   chunk_count := chunk_count s + 1,
                   stream_buffer := stream_buffer s @ chunk\<rparr>))) =
           trim_buffer (stream_buffer s @ chunk)))"
proof -
  have helper: "length (trim_buffer b) \<le> 500000 \<and> suffix (trim_buffer b) b \<and>
     (500000 < length b \<longrightarrow>
        length (trim_buffer b) = 300000 \<and> trim_buffer b = drop (length b - 300000) b)"
    for b
    by (simp add: trim_buffer_def suffix_drop)
  have sess: "stream_buffer (trim_session s) = trim_buffer (stream_buffer s)"
    by (simp add: trim_session_def)
  from helper [of b] helper [of "stream_buffer s"] sess
    checkpoint_pass [of s cfg t start chunk cv w ticks]
  show ?thesis by simp
qed

theorem trim_buffer_within_cap_witness:
  "500000 < length (replicate 500001 (0::byte)) \<and>
   length (trim_buffer (replicate 500001 0)) = 300000 \<and>
   suffix (trim_buffer (replicate 500001 0)) (replicate 500001 0) \<and>
   frames_extracted \<lparr>saved_count = 0, total_bytes_read = 500000, chunk_count = 2,
       stream_buffer = replicate 500000 0, frames_extracted = 0\<rparr>
     < max_frames \<lparr>max_frames = 10, frame_extract_fps = 1, other_entries = []\<rparr> \<and>
   \<not> 60 < (0::real) - 0 \<and> padding \<noteq> [] \<and>
   (chunk_count \<lparr>saved_count = 0, total_bytes_read = 500000, chunk_count = 2,
       stream_buffer = replicate 500000 0, frames_extracted = 0\<rparr> + 1) mod 3 = 0 \<and>
   200000 < length (stream_buffer \<lparr>saved_count = 0, total_bytes_read = 500000, chunk_count = 2,
       stream_buffer = replicate 500000 0, frames_extracted = 0\<rparr> @ padding) \<and>
   length (stream_buffer (fst (read_loop cv_closed
       \<lparr>max_frames = 10, frame_extract_fps = 1, other_entries = []\<rparr> 0 [(0, Chunk padding)]
       \<lparr>saved_count = 0, total_bytes_read = 500000, chunk_count = 2,
         stream_buffer = replicate 500000 0, frames_extracted = 0\<rparr> fresh_world))) = 300000"
proof -
  let ?s = "\<lparr>saved_count = 0, total_bytes_read = 500000, chunk_count = 2,
       stream_buffer = replicate 500000 (0::byte), frames_extracted = 0\<rparr>"
  let ?cfg = "\<lparr>max_frames = 10, frame_extract_fps = 1, other_entries = []\<rparr>"
  have big: "500000 < length (replicate 500001 (0::byte))" by simp
  have ne: "padding \<noteq> []" using length_padding by auto
  have hyp: "frames_extracted ?s < max_frames ?cfg \<and> \<not> 60 < (0::real) - 0 \<and> padding \<noteq> [] \<and>
      (chunk_count ?s + 1) mod 3 = 0 \<and> 200000 < length (stream_buffer ?s @ padding)"
    using ne by (simp add: length_padding)
  from trim_buffer_within_cap [of "replicate 500001 0" ?s ?cfg 0 0 padding cv_closed fresh_world "[]"]
    big hyp
  obtain n w' where first: "length (trim_buffer (replicate 500001 0)) = 300000 \<and>
      suffix (trim_buffer (replicate 500001 0)) (replicate 500001 (0::byte))"
    and run: "read_loop cv_closed ?cfg 0 [(0, Chunk padding)] ?s fresh_world =
       read_loop cv_closed ?cfg 0 []
         (trim_session (add_frames n
            (?s\<lparr>total_bytes_read := total_bytes_read ?s + int (length padding),
               chunk_count := chunk_count ?s + 1,
               stream_buffer := stream_buffer ?s @ padding\<rparr>))) w'"
    and buf: "stream_buffer (trim_session (add_frames n
            (?s\<lparr>total_bytes_read := total_bytes_read ?s + int (length padding),
               chunk_count := chunk_count ?s + 1,
               stream_buffer := stream_buffer ?s @ padding\<rparr>))) =
       trim_buffer (stream_buffer ?s @ padding)"
    by blast
  have "length (trim_buffer (stream_buffer ?s @ padding)) = 300000"
    by (simp add: trim_buffer_def length_padding)
  with run buf have "length (stream_buffer (fst (read_loop cv_closed ?cfg 0 [(0, Chunk padding)]
       ?s fresh_world))) = 300000"
    by (simp del: read_loop.simps(2))
  with big first hyp show ?thesis by blast
qed

section \<open>A summary that cannot be written\<close>




end
